theory Spec2Isabelle
  imports Main "HOL-Library.AList" "HOL-Library.Sublist"
begin

section \<open>Exceptions\<close>

text \<open>
  A dictionary key is a Python string or \<open>None\<close>: \<open>ExceptHandler.name\<close> is \<open>None\<close> for
  a handler written without \<open>as\<close>, and the scope tracker uses it as a key all the same.
\<close>

type_synonym key = "string option"

text \<open>
  The exceptions the modelled code raises, as values. \<open>PatternMatchException\<close> and
  \<open>PatternVarConflict\<close> are the two classes of \<open>pattern.py\<close>; \<open>KeyError\<close> is what
  \<open>del d[k]\<close> and \<open>d[k]\<close> raise on a missing key, \<open>AttributeError\<close> what reading a
  field raises on a node of another class.
\<close>

datatype error =
    PatternMatchException
  | PatternVarConflict
  | KeyError key
  | AttributeError

definition bind :: "error + 'a \<Rightarrow> ('a \<Rightarrow> error + 'b) \<Rightarrow> error + 'b" where
  "bind m f = (case m of Inl e \<Rightarrow> Inl e | Inr x \<Rightarrow> f x)"

section \<open>The matcher algebra (\<open>macropy/experimental/pattern.py\<close>)\<close>

subsection \<open>Values and classes\<close>

text \<open>
  The run-time values a matcher is applied to: \<open>None\<close>, integers, strings, tuples, lists
  and instances of user-defined classes. An instance carries the names of the classes of
  its type's method resolution order and the attributes \<open>getattr\<close> finds on it.
  Booleans and floats are left out, so that \<open>!=\<close> between a literal and a value is
  inequality of the modelled values.
\<close>

datatype pyval =
    PNone
  | PInt int
  | PStr string
  | PTuple "pyval list"
  | PList "pyval list"
  | PObj "string list" "(string \<times> pyval) list"

text \<open>The constants \<open>build_matcher\<close> passes to \<open>LiteralMatcher\<close>: \<open>tree.n\<close>, \<open>tree.s\<close>, \<open>None\<close>.\<close>

datatype literal = Num int | Str string | NoneConst

fun literal_val :: "literal \<Rightarrow> pyval" where
  "literal_val (Num n) = PInt n"
| "literal_val (Str s) = PStr s"
| "literal_val NoneConst = PNone"

type_synonym bindings = "(string \<times> pyval) list"

text \<open>
  A class as a \<open>ClassMatcher\<close> sees it: its name, \<open>inspect.getargspec(clazz.__init__).args\<close>
  (with \<open>self\<close>), and its \<open>__unapply__\<close> when it declares one. The hook is the class's own
  code: given the matchee and the keyword keys it returns the positional values and the
  keyword dictionary, or raises (\<open>Inl\<close>).
\<close>

record clazz =
  cname :: string
  init_args :: "string list"
  unapply :: "(pyval \<Rightarrow> string list \<Rightarrow> error + pyval list \<times> (string \<times> pyval) list) option"

fun isinstance :: "pyval \<Rightarrow> clazz \<Rightarrow> bool" where
  "isinstance (PObj mro attrs) c = (cname c \<in> set mro)"
| "isinstance _ c = False"

fun getattr :: "pyval \<Rightarrow> string \<Rightarrow> pyval option" where
  "getattr (PObj mro attrs) name = map_of attrs name"
| "getattr _ name = None"

definition hasattr :: "pyval \<Rightarrow> string \<Rightarrow> bool" where
  "hasattr v name = (getattr v name \<noteq> None)"

subsection \<open>Matchers\<close>

text \<open>
  One constructor per \<open>Matcher\<close> subclass, holding what \<open>__init__\<close> stores. The keyword
  matchers of a \<open>ClassMatcher\<close> are the \<open>**kwMatchers\<close> dictionary in insertion order.
\<close>

datatype matcher =
    LiteralMatcher literal
  | TupleMatcher "matcher list"
  | ParallelMatcher matcher matcher
  | ListMatcher "matcher list"
  | NameMatcher string
  | WildcardMatcher
  | ClassMatcher clazz "matcher list" "(string \<times> matcher) list"

definition vars_are_disjoint :: "string list \<Rightarrow> bool" where
  "vars_are_disjoint var_names = (length var_names = card (set var_names))"

text \<open>
  Modelled from the spec: \<open>util.flatten\<close> (\<open>macropy/core/util.py\<close> is not among the
  sources). The spec speaks of the union of the children's \<open>var_names()\<close> with duplicates
  kept for the check; on a list of lists of names that is their concatenation.
\<close>

definition flatten :: "'a list list \<Rightarrow> 'a list" where
  "flatten xss = concat xss"

fun var_names :: "matcher \<Rightarrow> string list" where
  "var_names (LiteralMatcher val) = []"
| "var_names (TupleMatcher matchers) = flatten (map var_names matchers)"
| "var_names (ParallelMatcher matcher1 matcher2) =
     flatten [var_names matcher1, var_names matcher2]"
| "var_names (ListMatcher matchers) = flatten (map var_names matchers)"
| "var_names (NameMatcher name) = [name]"
| "var_names WildcardMatcher = [''_'']"
| "var_names (ClassMatcher c positionalMatchers kwMatchers) =
     flatten (map var_names (positionalMatchers @ map snd kwMatchers))"

text \<open>
  The constructors: each \<open>__init__\<close> stores its arguments and raises \<open>PatternVarConflict\<close>
  when the names of the children are not disjoint.
\<close>

definition TupleMatcher_init :: "matcher list \<Rightarrow> error + matcher" where
  "TupleMatcher_init matchers =
     (if \<not> vars_are_disjoint (flatten (map var_names matchers)) then Inl PatternVarConflict
      else Inr (TupleMatcher matchers))"

definition ParallelMatcher_init :: "matcher \<Rightarrow> matcher \<Rightarrow> error + matcher" where
  "ParallelMatcher_init matcher1 matcher2 =
     (if \<not> vars_are_disjoint (flatten [var_names matcher1, var_names matcher2])
      then Inl PatternVarConflict
      else Inr (ParallelMatcher matcher1 matcher2))"

definition ListMatcher_init :: "matcher list \<Rightarrow> error + matcher" where
  "ListMatcher_init matchers =
     (if \<not> vars_are_disjoint (flatten (map var_names matchers)) then Inl PatternVarConflict
      else Inr (ListMatcher matchers))"

definition ClassMatcher_init ::
  "clazz \<Rightarrow> matcher list \<Rightarrow> (string \<times> matcher) list \<Rightarrow> error + matcher" where
  "ClassMatcher_init c positionalMatchers kwMatchers =
     (if \<not> vars_are_disjoint
           (flatten (map var_names (positionalMatchers @ map snd kwMatchers)))
      then Inl PatternVarConflict
      else Inr (ClassMatcher c positionalMatchers kwMatchers))"

text \<open>
  \<open>default_unapply\<close>: the instance check, then the keyword loop, which fails on the first
  key the matchee has no attribute for. \<open>genPosValues\<close> reads the constructor's
  parameters off the matchee with \<open>getattr(matchee, arg, None)\<close>.
\<close>

definition genPosValues :: "clazz \<Rightarrow> pyval \<Rightarrow> pyval list" where
  "genPosValues c matchee =
     map (\<lambda>arg. case getattr matchee arg of None \<Rightarrow> PNone | Some x \<Rightarrow> x)
       (filter (\<lambda>arg. arg \<noteq> ''self'') (init_args c))"

fun kw_loop :: "pyval \<Rightarrow> string list \<Rightarrow> (string \<times> pyval) list \<Rightarrow> error + (string \<times> pyval) list" where
  "kw_loop matchee [] kw_dict = Inr kw_dict"
| "kw_loop matchee (kw_key # kw_keys) kw_dict =
     (if \<not> hasattr matchee kw_key then Inl PatternMatchException
      else (case getattr matchee kw_key of
              None \<Rightarrow> Inl AttributeError
            | Some x \<Rightarrow> kw_loop matchee kw_keys (AList.update kw_key x kw_dict)))"

definition default_unapply ::
  "clazz \<Rightarrow> pyval \<Rightarrow> string list \<Rightarrow> error + pyval list \<times> (string \<times> pyval) list" where
  "default_unapply c matchee kw_keys =
     (if \<not> isinstance matchee c then Inl PatternMatchException
      else bind (kw_loop matchee kw_keys []) (\<lambda>kw_dict. Inr (genPosValues c matchee, kw_dict)))"

definition destructure ::
  "clazz \<Rightarrow> pyval \<Rightarrow> string list \<Rightarrow> error + pyval list \<times> (string \<times> pyval) list" where
  "destructure c matchee kw_keys =
     (case unapply c of
        Some hook \<Rightarrow> hook matchee kw_keys
      | None \<Rightarrow> default_unapply c matchee kw_keys)"

text \<open>
  \<open>match\<close>. The loops over \<open>zip(matchers, values)\<close> are \<open>match_zip\<close>, which stops at the
  end of the shorter list and at the first sub-matcher that raises;
  \<open>self.kwMatchers[key].match(val)\<close> is \<open>match_key\<close>, a \<open>KeyError\<close> when the key has no
  matcher; the loop over \<open>kw_dict.items()\<close> is \<open>match_items\<close>.
\<close>

fun match :: "matcher \<Rightarrow> pyval \<Rightarrow> error + bindings"
  and match_zip :: "matcher list \<Rightarrow> pyval list \<Rightarrow> error + bindings"
  and match_items :: "(string \<times> matcher) list \<Rightarrow> (string \<times> pyval) list \<Rightarrow> error + bindings"
  and match_key :: "(string \<times> matcher) list \<Rightarrow> string \<Rightarrow> pyval \<Rightarrow> error + bindings"
where
  "match (LiteralMatcher val) matchee =
     (if literal_val val \<noteq> matchee then Inl PatternMatchException else Inr [])"
| "match (TupleMatcher matchers) matchee =
     (case matchee of
        PTuple xs \<Rightarrow>
          if length xs \<noteq> length matchers then Inl PatternMatchException
          else match_zip matchers xs
      | _ \<Rightarrow> Inl PatternMatchException)"
| "match (ParallelMatcher matcher1 matcher2) matchee =
     bind (match matcher1 matchee) (\<lambda>m1.
     bind (match matcher2 matchee) (\<lambda>m2. Inr (m1 @ m2)))"
| "match (ListMatcher matchers) matchee =
     (case matchee of
        PList xs \<Rightarrow>
          if length xs \<noteq> length matchers then Inl PatternMatchException
          else match_zip matchers xs
      | _ \<Rightarrow> Inl PatternMatchException)"
| "match (NameMatcher name) matchee = Inr [(name, matchee)]"
| "match WildcardMatcher matchee = Inr [(''_'', PInt 3)]"
| "match (ClassMatcher c positionalMatchers kwMatchers) matchee =
     bind (destructure c matchee (map fst kwMatchers)) (\<lambda>(pos_vals, kw_dict).
     bind (match_zip positionalMatchers pos_vals) (\<lambda>updates.
     bind (match_items kwMatchers kw_dict) (\<lambda>kw_updates. Inr (updates @ kw_updates))))"
| "match_zip [] sub_matchees = Inr []"
| "match_zip (matcher # matchers) [] = Inr []"
| "match_zip (matcher # matchers) (sub_matchee # sub_matchees) =
     bind (match matcher sub_matchee) (\<lambda>m.
     bind (match_zip matchers sub_matchees) (\<lambda>ms. Inr (m @ ms)))"
| "match_items kwMatchers [] = Inr []"
| "match_items kwMatchers ((key, val) # items) =
     bind (match_key kwMatchers key val) (\<lambda>m.
     bind (match_items kwMatchers items) (\<lambda>ms. Inr (m @ ms)))"
| "match_key [] key val = Inl (KeyError (Some key))"
| "match_key ((k, matcher) # kwMatchers) key val =
     (if k = key then match matcher val else match_key kwMatchers key val)"

text \<open>
  The class of the spec's structural-match example: \<open>Point\<close> with the constructor
  \<open>__init__(self, x, y)\<close> and no \<open>__unapply__\<close>.
\<close>

definition Point :: clazz where
  "Point = \<lparr>cname = ''Point'', init_args = [''self'', ''x'', ''y''], unapply = None\<rparr>"

text \<open>Name lists of siblings no two of which share a name.\<close>

fun pairwise_disjoint :: "'a list list \<Rightarrow> bool" where
  "pairwise_disjoint [] = True"
| "pairwise_disjoint (xs # xss) = ((\<forall>ys \<in> set xss. set xs \<inter> set ys = {}) \<and> pairwise_disjoint xss)"

text \<open>
  A matcher every composite node of which went through its constructor without a
  \<open>PatternVarConflict\<close>: the matchers that exist at run time.
\<close>

fun constructed :: "matcher \<Rightarrow> bool" where
  "constructed (LiteralMatcher val) = True"
| "constructed (TupleMatcher ms) =
     (list_all constructed ms \<and> TupleMatcher_init ms = Inr (TupleMatcher ms))"
| "constructed (ParallelMatcher m1 m2) =
     (constructed m1 \<and> constructed m2 \<and> ParallelMatcher_init m1 m2 = Inr (ParallelMatcher m1 m2))"
| "constructed (ListMatcher ms) =
     (list_all constructed ms \<and> ListMatcher_init ms = Inr (ListMatcher ms))"
| "constructed (NameMatcher name) = True"
| "constructed WildcardMatcher = True"
| "constructed (ClassMatcher c ps kws) =
     (list_all constructed ps \<and> list_all (\<lambda>(k, m). constructed m) kws \<and>
      ClassMatcher_init c ps kws = Inr (ClassMatcher c ps kws))"


section \<open>The scope tracker (\<open>macropy/core/analysis.py\<close>)\<close>

subsection \<open>Program trees\<close>

text \<open>
  The nodes of Python's \<open>ast\<close> module the tracker distinguishes, each with the fields of
  its class in the order of \<open>_fields\<close>; \<open>Other\<close> is a node of any other class, with its
  child nodes in field order. Expression contexts (\<open>Load\<close>, \<open>Store\<close>, \<open>Param\<close>) and fields
  that hold no node are left out of the children. The code runs its \<open>PY3\<close> branches.
\<close>

datatype ast =
    Module "ast list"
  | Expr ast
  | Assign "ast list" ast
  | Name string
  | Attribute ast string
  | Subscript ast ast
  | Lambda ast ast
  | GeneratorExp ast "ast list"
  | ListComp ast "ast list"
  | SetComp ast "ast list"
  | DictComp ast ast "ast list"
  | comprehension ast ast "ast list"
  | FunctionDef string ast "ast list" "ast list" "ast option"
  | arguments "ast list" "ast option" "ast list" "ast list" "ast option" "ast list"
  | arg string "ast option"
  | ClassDef string "ast list" "ast list" "ast list" "ast list"
  | ExceptHandler "ast option" "string option" "ast list"
  | For ast ast "ast list" "ast list"
  | With "ast list" "ast list"
  | withitem ast "ast option"
  | Other string "ast list"

datatype field = Single ast | Many "ast list" | Null

fun optional :: "ast option \<Rightarrow> field" where
  "optional None = Null"
| "optional (Some tree) = Single tree"

fun iter_fields :: "ast \<Rightarrow> (string \<times> field) list" where
  "iter_fields (Module body) = [(''body'', Many body)]"
| "iter_fields (Expr val) = [(''value'', Single val)]"
| "iter_fields (Assign targets val) = [(''targets'', Many targets), (''value'', Single val)]"
| "iter_fields (Name ident) = []"
| "iter_fields (Attribute val attr) = [(''value'', Single val)]"
| "iter_fields (Subscript val slice) = [(''value'', Single val), (''slice'', Single slice)]"
| "iter_fields (Lambda args body) = [(''args'', Single args), (''body'', Single body)]"
| "iter_fields (GeneratorExp elt generators) =
     [(''elt'', Single elt), (''generators'', Many generators)]"
| "iter_fields (ListComp elt generators) =
     [(''elt'', Single elt), (''generators'', Many generators)]"
| "iter_fields (SetComp elt generators) =
     [(''elt'', Single elt), (''generators'', Many generators)]"
| "iter_fields (DictComp k val generators) =
     [(''key'', Single k), (''value'', Single val), (''generators'', Many generators)]"
| "iter_fields (comprehension target iter ifs) =
     [(''target'', Single target), (''iter'', Single iter), (''ifs'', Many ifs)]"
| "iter_fields (FunctionDef name args body decorator_list returns) =
     [(''args'', Single args), (''body'', Many body),
      (''decorator_list'', Many decorator_list), (''returns'', optional returns)]"
| "iter_fields (arguments args vararg kwonlyargs kw_defaults kwarg defaults) =
     [(''args'', Many args), (''vararg'', optional vararg), (''kwonlyargs'', Many kwonlyargs),
      (''kw_defaults'', Many kw_defaults), (''kwarg'', optional kwarg),
      (''defaults'', Many defaults)]"
| "iter_fields (arg name annotation) = [(''annotation'', optional annotation)]"
| "iter_fields (ClassDef name bases keywords body decorator_list) =
     [(''bases'', Many bases), (''keywords'', Many keywords), (''body'', Many body),
      (''decorator_list'', Many decorator_list)]"
| "iter_fields (ExceptHandler type name body) =
     [(''type'', optional type), (''body'', Many body)]"
| "iter_fields (For target iter body orelse) =
     [(''target'', Single target), (''iter'', Single iter), (''body'', Many body),
      (''orelse'', Many orelse)]"
| "iter_fields (With items body) = [(''items'', Many items), (''body'', Many body)]"
| "iter_fields (withitem context_expr optional_vars) =
     [(''context_expr'', Single context_expr), (''optional_vars'', optional optional_vars)]"
| "iter_fields (Other cls children) = [(''children'', Many children)]"

subsection \<open>The generic tree walker\<close>

text \<open>
  A position in a tree: the fields and list indices that lead to it. Python tells two
  nodes apart by object identity; in a tree whose nodes are not shared a node is its
  position.
\<close>

datatype step = InField string | AtIndex nat

type_synonym path = "step list"

text \<open>
  What a visitor did with the control callables the walker passed it: the values it gave
  to \<open>collect\<close>, whether it called \<open>stop\<close>, and its calls of \<open>set_ctx_for\<close>, each with the
  position of the target below the visited node and the context set for it.
\<close>

record ('a, 'c) controls =
  collected :: "'a list"
  stopped :: bool
  ctx_for :: "(path \<times> 'c) list"

fun field_size :: "field \<Rightarrow> nat" where
  "field_size (Single tree) = 2 * size tree + 1"
| "field_size (Many trees) = 2 * size_list size trees"
| "field_size Null = 0"

fun fields_size :: "(string \<times> field) list \<Rightarrow> nat" where
  "fields_size [] = 0"
| "fields_size ((name, val) # flds) = field_size val + fields_size flds"

lemma field_size_optional: "field_size (optional x) \<le> 2 * size_option size x"
  by (cases x) auto

lemma fields_size_iter_fields: "fields_size (iter_fields tree) < Suc (2 * size tree)"
proof (cases tree)
  case (FunctionDef name args body decorator_list returns)
  then show ?thesis using field_size_optional [of returns] by simp
next
  case (arguments args vararg kwonlyargs kw_defaults kwarg defaults)
  then show ?thesis using field_size_optional [of vararg] field_size_optional [of kwarg] by simp
next
  case (arg name annotation)
  then show ?thesis using field_size_optional [of annotation] by simp
next
  case (ExceptHandler type name body)
  then show ?thesis using field_size_optional [of type] by simp
next
  case (withitem context_expr optional_vars)
  then show ?thesis using field_size_optional [of optional_vars] by simp
qed simp_all

text \<open>
  Modelled from the spec: the \<open>Walker\<close> of \<open>macropy/core/walkers.py\<close>, which is not among
  the sources. At every node the visitor runs first, with the context of that node; unless
  it stopped, the walker recurses into every child field in order, a single node or a
  sequence of nodes, and returns what was collected, in traversal order. A context set
  with \<open>set_ctx_for\<close> replaces the context for the target's own visit and its descendants.
  \<open>sub_ctx\<close> keeps the pending \<open>set_ctx_for\<close> entries that lie below a step, relative to
  it, and \<open>ctx_at\<close> is the context on arrival: the last entry set for the position itself.
\<close>

definition sub_ctx :: "(path \<times> 'c) list \<Rightarrow> step \<Rightarrow> (path \<times> 'c) list" where
  "sub_ctx sub_kw s =
     map (\<lambda>(p, c). (tl p, c)) (filter (\<lambda>(p, c). p \<noteq> [] \<and> hd p = s) sub_kw)"

definition ctx_at :: "(path \<times> 'c) list \<Rightarrow> 'c \<Rightarrow> 'c" where
  "ctx_at sub_kw ctx = fold (\<lambda>(p, c) acc. if p = [] then c else acc) sub_kw ctx"

function recurse_collect ::
    "(path \<Rightarrow> ast \<Rightarrow> 'c \<Rightarrow> error + ('a, 'c) controls) \<Rightarrow> (path \<times> 'c) list \<Rightarrow> 'c \<Rightarrow> path \<Rightarrow> ast
      \<Rightarrow> error + 'a list"
  and walk_fields ::
    "(path \<Rightarrow> ast \<Rightarrow> 'c \<Rightarrow> error + ('a, 'c) controls) \<Rightarrow> (path \<times> 'c) list \<Rightarrow> 'c \<Rightarrow> path
      \<Rightarrow> (string \<times> field) list \<Rightarrow> error + 'a list"
  and walk_children ::
    "(path \<Rightarrow> ast \<Rightarrow> 'c \<Rightarrow> error + ('a, 'c) controls) \<Rightarrow> (path \<times> 'c) list \<Rightarrow> 'c \<Rightarrow> path
      \<Rightarrow> field \<Rightarrow> error + 'a list"
  and walk_list ::
    "(path \<Rightarrow> ast \<Rightarrow> 'c \<Rightarrow> error + ('a, 'c) controls) \<Rightarrow> (path \<times> 'c) list \<Rightarrow> 'c \<Rightarrow> path
      \<Rightarrow> nat \<Rightarrow> ast list \<Rightarrow> error + 'a list"
where
  "recurse_collect func sub_kw ctx pos tree =
     bind (func pos tree ctx) (\<lambda>r.
       if stopped r then Inr (collected r)
       else bind (walk_fields func (sub_kw @ ctx_for r) ctx pos (iter_fields tree))
              (\<lambda>aggregates. Inr (collected r @ aggregates)))"
| "walk_fields func sub_kw ctx pos [] = Inr []"
| "walk_fields func sub_kw ctx pos ((name, val) # flds) =
     bind (walk_children func (sub_ctx sub_kw (InField name))
             (ctx_at (sub_ctx sub_kw (InField name)) ctx) (pos @ [InField name]) val) (\<lambda>aggregate.
     bind (walk_fields func sub_kw ctx pos flds) (\<lambda>aggregates.
       Inr (aggregate @ aggregates)))"
| "walk_children func sub_kw ctx pos (Single tree) = recurse_collect func sub_kw ctx pos tree"
| "walk_children func sub_kw ctx pos (Many trees) = walk_list func sub_kw ctx pos 0 trees"
| "walk_children func sub_kw ctx pos Null = Inr []"
| "walk_list func sub_kw ctx pos i [] = Inr []"
| "walk_list func sub_kw ctx pos i (tree # trees) =
     bind (recurse_collect func (sub_ctx sub_kw (AtIndex i))
             (ctx_at (sub_ctx sub_kw (AtIndex i)) ctx) (pos @ [AtIndex i]) tree) (\<lambda>aggregate.
     bind (walk_list func sub_kw ctx pos (Suc i) trees) (\<lambda>aggregates.
       Inr (aggregate @ aggregates)))"
  by pat_completeness auto
termination
  apply (relation "inv_image (less_than <*lex*> less_than <*lex*> less_than)
     (\<lambda>x. case x of
        Inl (Inl (func, sub_kw, ctx, pos, tree)) \<Rightarrow> (2 * size tree + 1, 3::nat, 0::nat)
      | Inl (Inr (func, sub_kw, ctx, pos, flds)) \<Rightarrow> (fields_size flds, 5, length flds)
      | Inr (Inl (func, sub_kw, ctx, pos, val)) \<Rightarrow> (field_size val, 4, 0)
      | Inr (Inr (func, sub_kw, ctx, pos, i, trees)) \<Rightarrow> (2 * size_list size trees, 2, length trees))")
  apply (auto simp: fields_size_iter_fields)
  done

declare recurse_collect.simps [simp del]

text \<open>
  \<open>Walker.collect\<close>, from a node and from a sequence of nodes (\<open>recurse_collect\<close> on a list
  goes straight to its elements). The traversal starts at the empty position.
\<close>

definition collect ::
  "(path \<Rightarrow> ast \<Rightarrow> 'c \<Rightarrow> error + ('a, 'c) controls) \<Rightarrow> 'c \<Rightarrow> ast \<Rightarrow> error + 'a list" where
  "collect func ctx tree = recurse_collect func [] ctx [] tree"

definition collect_list ::
  "(path \<Rightarrow> ast \<Rightarrow> 'c \<Rightarrow> error + ('a, 'c) controls) \<Rightarrow> 'c \<Rightarrow> ast list \<Rightarrow> error + 'a list" where
  "collect_list func ctx trees = walk_list func [] ctx [] 0 trees"

subsection \<open>Dictionaries\<close>

text \<open>
  A scope maps a name to the node that binds it: a node of the tree, or the
  \<open>ast.Name(id=..., ctx=ast.Param())\<close> the tracker makes up for a parameter or a handler's
  name. A dictionary is the list of its items in insertion order; assigning to a key
  that is present keeps its place, as in Python.
\<close>

datatype binding = Tree ast | ParamName key

type_synonym scope = "(key \<times> binding) list"

definition dict_update :: "('k \<times> 'v) list \<Rightarrow> ('k \<times> 'v) list \<Rightarrow> ('k \<times> 'v) list" where
  "dict_update d other = fold (\<lambda>(k, v). AList.update k v) other d"

definition dict :: "('k \<times> 'v) list \<Rightarrow> ('k \<times> 'v) list" where
  "dict pairs = dict_update [] pairs"

text \<open>
  Modelled from the spec: \<open>merge_dicts\<close> of \<open>macropy/core/util.py\<close>, which is not among the
  sources. The merge is right-biased (later dictionaries shadow earlier ones) and makes a
  new mapping.
\<close>

definition merge_dicts :: "('k \<times> 'v) list list \<Rightarrow> ('k \<times> 'v) list" where
  "merge_dicts my_dicts = dict (concat my_dicts)"

definition keys :: "('k \<times> 'v) list \<Rightarrow> 'k set" where
  "keys d = fst ` set d"

text \<open>\<open>del d[k]\<close> for each \<open>k\<close> in turn; a key that is not there is a \<open>KeyError\<close>.\<close>

fun del_keys :: "scope \<Rightarrow> key list \<Rightarrow> error + scope" where
  "del_keys new_scope [] = Inr new_scope"
| "del_keys new_scope (rem # rems) =
     (if rem \<in> keys new_scope then del_keys (AList.delete rem new_scope) rems
      else Inl (KeyError rem))"

subsection \<open>\<open>find_names\<close>, \<open>find_assignments\<close>, \<open>extract_arg_names\<close>\<close>

definition find_names :: "path \<Rightarrow> ast \<Rightarrow> unit \<Rightarrow> error + (key \<times> binding, unit) controls" where
  "find_names pos tree kw =
     Inr \<lparr>collected = (case tree of Name ident \<Rightarrow> [(Some ident, Tree tree)] | _ \<Rightarrow> []),
          stopped = (case tree of Attribute val attr \<Rightarrow> True | Subscript val slice \<Rightarrow> True
                     | _ \<Rightarrow> False),
          ctx_for = []\<rparr>"

definition find_assignments ::
  "path \<Rightarrow> ast \<Rightarrow> unit \<Rightarrow> error + (key \<times> binding, unit) controls" where
  "find_assignments pos tree kw =
     (case tree of
        ClassDef name bases keywords body decorator_list \<Rightarrow>
          Inr \<lparr>collected = [(Some name, Tree tree)], stopped = True, ctx_for = []\<rparr>
      | FunctionDef name args body decorator_list returns \<Rightarrow>
          Inr \<lparr>collected = [(Some name, Tree tree)], stopped = True, ctx_for = []\<rparr>
      | Assign targets val \<Rightarrow>
          bind (collect_list find_names () targets) (\<lambda>xs.
            Inr \<lparr>collected = xs, stopped = False, ctx_for = []\<rparr>)
      | _ \<Rightarrow> Inr \<lparr>collected = [], stopped = False, ctx_for = []\<rparr>)"

text \<open>
  \<open>extract_arg_names\<close>, the \<open>PY3\<close> branch: \<open>vararg\<close>, \<open>kwarg\<close> and \<open>args\<close>. Reading \<open>.arg\<close>
  off a node that is no \<open>arg\<close>, or the fields of a node that is no \<open>arguments\<close>, is an
  \<open>AttributeError\<close>.
\<close>

fun arg_pair :: "ast option \<Rightarrow> error + (key \<times> binding) list" where
  "arg_pair None = Inr []"
| "arg_pair (Some (arg name annotation)) = Inr [(Some name, Tree (arg name annotation))]"
| "arg_pair (Some _) = Inl AttributeError"

fun arg_names :: "ast list \<Rightarrow> error + (key \<times> binding) list" where
  "arg_names [] = Inr []"
| "arg_names (arg name annotation # args) =
     bind (arg_names args) (\<lambda>pairs. Inr ((Some name, ParamName (Some name)) # pairs))"
| "arg_names (_ # args) = Inl AttributeError"

fun extract_arg_names :: "ast \<Rightarrow> error + scope" where
  "extract_arg_names (arguments args vararg kwonlyargs kw_defaults kwarg defaults) =
     bind (arg_pair vararg) (\<lambda>va.
     bind (arg_pair kwarg) (\<lambda>kw.
     bind (arg_names args) (\<lambda>as. Inr (dict (va @ kw @ as)))))"
| "extract_arg_names _ = Inl AttributeError"

subsection \<open>\<open>Scoped\<close>\<close>

text \<open>
  \<open>extend_scope\<close>: the new scope is the merge of \<open>scope\<close> and the given dictionaries, less
  the keys of \<open>remove\<close>, and is set as the context of the target. \<open>scope\<close> itself is left
  as it is.
\<close>

definition extend_scope ::
  "scope \<Rightarrow> path \<Rightarrow> scope list \<Rightarrow> key list \<Rightarrow> error + (path \<times> scope) list" where
  "extend_scope scope target dicts remove =
     bind (del_keys (merge_dicts (scope # dicts)) remove) (\<lambda>new_scope.
       Inr [(target, new_scope)])"

text \<open>
  The loop over \<open>tree.generators\<close> of a comprehension: \<open>i\<close> is the index of \<open>gen\<close> in the
  list, \<open>iterator_vars\<close> the dictionary the loop updates. It returns the \<open>set_ctx_for\<close>
  calls and the final \<open>iterator_vars\<close>.
\<close>

fun generators_loop ::
  "scope \<Rightarrow> scope \<Rightarrow> nat \<Rightarrow> ast list \<Rightarrow> error + (path \<times> scope) list \<times> scope" where
  "generators_loop scope iterator_vars i [] = Inr ([], iterator_vars)"
| "generators_loop scope iterator_vars i (comprehension target iter ifs # generators) =
     bind (extend_scope scope [InField ''generators'', AtIndex i, InField ''target''] [iterator_vars] [])
       (\<lambda>r1.
     bind (extend_scope scope [InField ''generators'', AtIndex i, InField ''iter''] [iterator_vars] [])
       (\<lambda>r2.
     bind (collect find_names () target) (\<lambda>names.
     bind (extend_scope scope [InField ''generators'', AtIndex i, InField ''ifs'']
             [dict_update iterator_vars (dict names)] []) (\<lambda>r3.
     bind (generators_loop scope (dict_update iterator_vars (dict names)) (Suc i) generators)
       (\<lambda>(rs, final_vars). Inr (r1 @ r2 @ r3 @ rs, final_vars))))))"
| "generators_loop scope iterator_vars i (_ # generators) = Inl AttributeError"

text \<open>
  The part of \<open>Scoped.func\<close> before it hands over to the wrapped walker: the
  \<open>set_ctx_for\<close> calls it makes at \<open>tree\<close>, in order.
\<close>

fun extensions :: "scope \<Rightarrow> ast \<Rightarrow> error + (path \<times> scope) list" where
  "extensions scope (Lambda args body) =
     bind (extract_arg_names args) (\<lambda>arg_names. extend_scope scope [InField ''body''] [arg_names] [])"
| "extensions scope (GeneratorExp elt generators) =
     bind (generators_loop scope [] 0 generators) (\<lambda>(rs, iterator_vars).
     bind (extend_scope scope [InField ''elt''] [iterator_vars] []) (\<lambda>r. Inr (rs @ r)))"
| "extensions scope (ListComp elt generators) =
     bind (generators_loop scope [] 0 generators) (\<lambda>(rs, iterator_vars).
     bind (extend_scope scope [InField ''elt''] [iterator_vars] []) (\<lambda>r. Inr (rs @ r)))"
| "extensions scope (SetComp elt generators) =
     bind (generators_loop scope [] 0 generators) (\<lambda>(rs, iterator_vars).
     bind (extend_scope scope [InField ''elt''] [iterator_vars] []) (\<lambda>r. Inr (rs @ r)))"
| "extensions scope (DictComp k val generators) =
     bind (generators_loop scope [] 0 generators) (\<lambda>(rs, iterator_vars).
     bind (extend_scope scope [InField ''key''] [iterator_vars] []) (\<lambda>r1.
     bind (extend_scope scope [InField ''value''] [iterator_vars] []) (\<lambda>r2.
       Inr (rs @ r1 @ r2))))"
| "extensions scope (FunctionDef name args body decorator_list returns) =
     bind (extend_scope scope [InField ''args'']
             [[(Some name, Tree (FunctionDef name args body decorator_list returns))]] [])
       (\<lambda>r1.
     bind (extract_arg_names args) (\<lambda>arg_names.
     bind (collect_list find_assignments () body) (\<lambda>assignments.
     bind (extend_scope scope [InField ''body'']
             [[(Some name, Tree (FunctionDef name args body decorator_list returns))],
              arg_names, dict assignments] []) (\<lambda>r2.
       Inr (r1 @ r2)))))"
| "extensions scope (ClassDef name bases keywords body decorator_list) =
     bind (extend_scope scope [InField ''bases''] [] [Some name]) (\<lambda>r1.
     bind (collect_list find_assignments () body) (\<lambda>assignments.
     bind (extend_scope scope [InField ''body''] [dict assignments] [Some name]) (\<lambda>r2.
       Inr (r1 @ r2))))"
| "extensions scope (ExceptHandler type name body) =
     extend_scope scope [InField ''body''] [[(name, ParamName name)]] []"
| "extensions scope (For target iter body orelse) =
     bind (collect find_names () target) (\<lambda>names.
       extend_scope scope [InField ''body''] [dict names] [])"
| "extensions scope (With items body) =
     bind (collect_list find_names () items) (\<lambda>names.
       extend_scope scope [InField ''body''] [dict names] [])"
| "extensions scope _ = Inr []"

text \<open>
  \<open>Scoped.func\<close>: the extensions, then the wrapped walker's own function, called with the
  \<open>scope\<close> the node was entered with and the same \<open>collect\<close>, \<open>stop\<close> and \<open>set_ctx_for\<close>.
\<close>

definition Scoped_func ::
  "(path \<Rightarrow> ast \<Rightarrow> scope \<Rightarrow> error + ('a, scope) controls) \<Rightarrow>
   path \<Rightarrow> ast \<Rightarrow> scope \<Rightarrow> error + ('a, scope) controls" where
  "Scoped_func walker pos tree scope =
     bind (extensions scope tree) (\<lambda>rs.
     bind (walker pos tree scope) (\<lambda>r. Inr (r\<lparr>ctx_for := rs @ ctx_for r\<rparr>)))"

text \<open>
  \<open>Scoped.recurse_collect\<close> as called from outside: without a \<open>scope\<close> keyword the scope is
  what \<open>find_assignments\<close> collects on the tree.
\<close>

definition Scoped_collect ::
  "(path \<Rightarrow> ast \<Rightarrow> scope \<Rightarrow> error + ('a, scope) controls) \<Rightarrow> ast \<Rightarrow> scope option
    \<Rightarrow> error + 'a list" where
  "Scoped_collect walker tree scope =
     (case scope of
        Some given \<Rightarrow> collect (Scoped_func walker) given tree
      | None \<Rightarrow> bind (collect find_assignments () tree) (\<lambda>assignments.
                 collect (Scoped_func walker) (dict assignments) tree))"

text \<open>
  A wrapped walker that only looks: it collects, at every node, the position, the node
  and the names of the scope it was called with.
\<close>

definition observe :: "path \<Rightarrow> ast \<Rightarrow> scope \<Rightarrow> error + (path \<times> ast \<times> key list, scope) controls" where
  "observe pos tree scope =
     Inr \<lparr>collected = [(pos, tree, map fst scope)], stopped = False, ctx_for = []\<rparr>"

definition scope_at :: "(path \<times> ast \<times> key list) list \<Rightarrow> path \<Rightarrow> (ast \<times> key list) option" where
  "scope_at visits pos = map_of visits pos"

subsection \<open>The scopes as objects\<close>

text \<open>
  The dictionaries of \<open>Scoped.func\<close> as objects in a store, so that building a new
  dictionary and updating one in place are different things: a scope is an address, the
  store holds what each dictionary contains, and a dictionary made by \<open>dict\<close>,
  \<open>merge_dicts\<close> or \<open>{}\<close> is a new address at the end of the store.
\<close>

type_synonym addr = nat

type_synonym store = "scope list"

definition new_dict :: "scope \<Rightarrow> store \<Rightarrow> addr \<times> store" where
  "new_dict d st = (length st, st @ [d])"

text \<open>\<open>d.update(e)\<close> on the object at an address.\<close>

definition dict_update_at :: "addr \<Rightarrow> scope \<Rightarrow> store \<Rightarrow> store" where
  "dict_update_at d e st = st[d := dict_update (st ! d) e]"

text \<open>\<open>del new_scope[rem]\<close> for each \<open>rem\<close>, on the object at \<open>new_scope\<close>.\<close>

fun del_keys_at :: "addr \<Rightarrow> key list \<Rightarrow> store \<Rightarrow> error + store" where
  "del_keys_at new_scope [] st = Inr st"
| "del_keys_at new_scope (rem # rems) st =
     (if rem \<in> keys (st ! new_scope)
      then del_keys_at new_scope rems (st[new_scope := AList.delete rem (st ! new_scope)])
      else Inl (KeyError rem))"

text \<open>
  \<open>extend_scope\<close>: \<open>merge_dicts\<close> makes the new object from what \<open>scope\<close> and the given
  dictionaries hold now, the keys of \<open>remove\<close> are deleted from it, and its address is
  set as the context of the target.
\<close>

definition extend_scope_at ::
  "addr \<Rightarrow> path \<Rightarrow> scope list \<Rightarrow> key list \<Rightarrow> store \<Rightarrow> error + (path \<times> addr) list \<times> store" where
  "extend_scope_at scope target dicts remove st =
     (case new_dict (merge_dicts (st ! scope # dicts)) st of
        (new_scope, st1) \<Rightarrow>
          bind (del_keys_at new_scope remove st1) (\<lambda>st2. Inr ([(target, new_scope)], st2)))"

text \<open>
  The loop over \<open>tree.generators\<close>: \<open>iterator_vars\<close> is one object, updated in place after
  the target and the iterable of a clause have got their scopes.
\<close>

fun generators_loop_at ::
  "addr \<Rightarrow> addr \<Rightarrow> nat \<Rightarrow> ast list \<Rightarrow> store \<Rightarrow> error + (path \<times> addr) list \<times> store" where
  "generators_loop_at scope iterator_vars i [] st = Inr ([], st)"
| "generators_loop_at scope iterator_vars i (comprehension target iter ifs # generators) st =
     bind (extend_scope_at scope [InField ''generators'', AtIndex i, InField ''target'']
             [st ! iterator_vars] [] st) (\<lambda>(r1, st1).
     bind (extend_scope_at scope [InField ''generators'', AtIndex i, InField ''iter'']
             [st1 ! iterator_vars] [] st1) (\<lambda>(r2, st2).
     bind (collect find_names () target) (\<lambda>names.
     bind (Inr (dict_update_at iterator_vars (dict names) st2)) (\<lambda>st3.
     bind (extend_scope_at scope [InField ''generators'', AtIndex i, InField ''ifs'']
             [st3 ! iterator_vars] [] st3) (\<lambda>(r3, st4).
     bind (generators_loop_at scope iterator_vars (Suc i) generators st4) (\<lambda>(rs, st5).
       Inr (r1 @ r2 @ r3 @ rs, st5)))))))"
| "generators_loop_at scope iterator_vars i (_ # generators) st = Inl AttributeError"

text \<open>
  The part of \<open>Scoped.func\<close> before it hands over to the wrapped walker, on the store:
  the addresses it sets as contexts, and the store it leaves.
\<close>

fun extensions_at :: "addr \<Rightarrow> ast \<Rightarrow> store \<Rightarrow> error + (path \<times> addr) list \<times> store" where
  "extensions_at scope (Lambda args body) st =
     bind (extract_arg_names args) (\<lambda>arg_names.
       extend_scope_at scope [InField ''body''] [arg_names] [] st)"
| "extensions_at scope (GeneratorExp elt generators) st =
     (case new_dict [] st of (iterator_vars, st0) \<Rightarrow>
     bind (generators_loop_at scope iterator_vars 0 generators st0) (\<lambda>(rs, st1).
     bind (extend_scope_at scope [InField ''elt''] [st1 ! iterator_vars] [] st1) (\<lambda>(r, st2).
       Inr (rs @ r, st2))))"
| "extensions_at scope (ListComp elt generators) st =
     (case new_dict [] st of (iterator_vars, st0) \<Rightarrow>
     bind (generators_loop_at scope iterator_vars 0 generators st0) (\<lambda>(rs, st1).
     bind (extend_scope_at scope [InField ''elt''] [st1 ! iterator_vars] [] st1) (\<lambda>(r, st2).
       Inr (rs @ r, st2))))"
| "extensions_at scope (SetComp elt generators) st =
     (case new_dict [] st of (iterator_vars, st0) \<Rightarrow>
     bind (generators_loop_at scope iterator_vars 0 generators st0) (\<lambda>(rs, st1).
     bind (extend_scope_at scope [InField ''elt''] [st1 ! iterator_vars] [] st1) (\<lambda>(r, st2).
       Inr (rs @ r, st2))))"
| "extensions_at scope (DictComp k val generators) st =
     (case new_dict [] st of (iterator_vars, st0) \<Rightarrow>
     bind (generators_loop_at scope iterator_vars 0 generators st0) (\<lambda>(rs, st1).
     bind (extend_scope_at scope [InField ''key''] [st1 ! iterator_vars] [] st1) (\<lambda>(r1, st2).
     bind (extend_scope_at scope [InField ''value''] [st2 ! iterator_vars] [] st2) (\<lambda>(r2, st3).
       Inr (rs @ r1 @ r2, st3)))))"
| "extensions_at scope (FunctionDef name args body decorator_list returns) st =
     bind (extend_scope_at scope [InField ''args'']
             [[(Some name, Tree (FunctionDef name args body decorator_list returns))]] [] st)
       (\<lambda>(r1, st1).
     bind (extract_arg_names args) (\<lambda>arg_names.
     bind (collect_list find_assignments () body) (\<lambda>assignments.
     bind (extend_scope_at scope [InField ''body'']
             [[(Some name, Tree (FunctionDef name args body decorator_list returns))],
              arg_names, dict assignments] [] st1) (\<lambda>(r2, st2).
       Inr (r1 @ r2, st2)))))"
| "extensions_at scope (ClassDef name bases keywords body decorator_list) st =
     bind (extend_scope_at scope [InField ''bases''] [] [Some name] st) (\<lambda>(r1, st1).
     bind (collect_list find_assignments () body) (\<lambda>assignments.
     bind (extend_scope_at scope [InField ''body''] [dict assignments] [Some name] st1)
       (\<lambda>(r2, st2). Inr (r1 @ r2, st2))))"
| "extensions_at scope (ExceptHandler type name body) st =
     extend_scope_at scope [InField ''body''] [[(name, ParamName name)]] [] st"
| "extensions_at scope (For target iter body orelse) st =
     bind (collect find_names () target) (\<lambda>names.
       extend_scope_at scope [InField ''body''] [dict names] [] st)"
| "extensions_at scope (With items body) st =
     bind (collect_list find_names () items) (\<lambda>names.
       extend_scope_at scope [InField ''body''] [dict names] [] st)"
| "extensions_at scope _ st = Inr ([], st)"

text \<open>
  A run on the store agrees with a run on values: it raises the same error, or it leaves
  every object of the store it started from as it was and sets as contexts new objects
  that hold the values.
\<close>

definition simulates ::
  "store \<Rightarrow> error + (path \<times> scope) list \<Rightarrow> error + (path \<times> addr) list \<times> store \<Rightarrow> bool" where
  "simulates st pure impl =
     (case pure of
        Inl e \<Rightarrow> impl = Inl e
      | Inr rs \<Rightarrow>
          (\<exists>regs st'. impl = Inr (regs, st') \<and>
             take (length st) st' = st \<and>
             map (\<lambda>(p, b). (p, st' ! b)) regs = rs \<and>
             (\<forall>(p, b) \<in> set regs. length st \<le> b \<and> b < length st')))"

subsection \<open>What the properties speak of\<close>

text \<open>
  The names \<open>find_assignments\<close> hoists from a block, the names \<open>find_names\<close> finds in
  a target, the names the targets of the first \<open>k\<close> clauses of a comprehension bind, and
  the fields of a node that \<open>Scoped.func\<close> passes to \<open>extend_scope\<close> (for a
  comprehension, \<open>generators\<close> stands for the parts of its clauses).
\<close>

definition hoisted :: "ast list \<Rightarrow> key set" where
  "hoisted body = (case collect_list find_assignments () body of Inr xs \<Rightarrow> keys xs | Inl e \<Rightarrow> {})"

definition bound_names :: "ast \<Rightarrow> key set" where
  "bound_names target = (case collect find_names () target of Inr xs \<Rightarrow> keys xs | Inl e \<Rightarrow> {})"

fun clause_names :: "ast \<Rightarrow> key set" where
  "clause_names (comprehension target iter ifs) = bound_names target"
| "clause_names _ = {}"

definition targets_before :: "ast list \<Rightarrow> nat \<Rightarrow> key set" where
  "targets_before generators k = (\<Union>gen \<in> set (take k generators). clause_names gen)"

fun extended_fields :: "ast \<Rightarrow> string list" where
  "extended_fields (Lambda args body) = [''body'']"
| "extended_fields (GeneratorExp elt generators) = [''generators'', ''elt'']"
| "extended_fields (ListComp elt generators) = [''generators'', ''elt'']"
| "extended_fields (SetComp elt generators) = [''generators'', ''elt'']"
| "extended_fields (DictComp k val generators) = [''generators'', ''key'', ''value'']"
| "extended_fields (FunctionDef name args body decorator_list returns) = [''args'', ''body'']"
| "extended_fields (ClassDef name bases keywords body decorator_list) = [''bases'', ''body'']"
| "extended_fields (ExceptHandler type name body) = [''body'']"
| "extended_fields (For target iter body orelse) = [''body'']"
| "extended_fields (With items body) = [''body'']"
| "extended_fields _ = []"

section \<open>Raising and returning\<close>

lemma bind_Inr_iff: "bind m f = Inr y \<longleftrightarrow> (\<exists>x. m = Inr x \<and> f x = Inr y)"
  by (cases m) (auto simp: bind_def)


lemma bind_Inr [simp]: "bind (Inr x) f = f x"
  by (simp add: bind_def)

lemma bind_Inl [simp]: "bind (Inl e) f = Inl e"
  by (simp add: bind_def)

section \<open>Properties of the matcher algebra\<close>

lemma vars_are_disjoint_distinct: "vars_are_disjoint xs = distinct xs"
  unfolding vars_are_disjoint_def by (metis card_distinct distinct_card)

lemma constructed_distinct: "constructed m \<Longrightarrow> distinct (var_names m)"
  by (cases m)
     (auto simp: TupleMatcher_init_def ListMatcher_init_def ParallelMatcher_init_def
        ClassMatcher_init_def vars_are_disjoint_distinct flatten_def split: if_splits)

lemma distinct_concat_pairwise:
  "\<forall>xs \<in> set xss. distinct xs \<Longrightarrow> pairwise_disjoint xss \<Longrightarrow> distinct (concat xss)"
  by (induction xss) auto



lemma match_zip_take:
  "match_zip ms xs = match_zip (take (length xs) ms) (take (length ms) xs)"
proof (induction ms arbitrary: xs)
  case Nil
  then show ?case by simp
next
  case (Cons m ms)
  show ?case
  proof (cases xs)
    case Nil
    then show ?thesis by simp
  next
    case (Cons y ys)
    then show ?thesis using Cons.IH [of ys] by simp
  qed
qed

lemma match_zip_append_matchers:
  "length xs \<le> length ms \<Longrightarrow> match_zip (ms @ extra) xs = match_zip ms xs"
  by (subst match_zip_take, subst (2) match_zip_take) simp

lemma match_zip_append_values:
  "length ms \<le> length xs \<Longrightarrow> match_zip ms (xs @ extra) = match_zip ms xs"
  by (subst match_zip_take, subst (2) match_zip_take) simp

lemma kw_loop_missing:
  "k \<in> set ks \<Longrightarrow> getattr v k = None \<Longrightarrow> kw_loop v ks d = Inl PatternMatchException"
  by (induction ks arbitrary: d) (auto simp: hasattr_def split: option.splits)

text \<open>
  Claim C1. Each composite constructor raises \<open>PatternVarConflict\<close> exactly when the
  concatenation of its children's \<open>var_names()\<close> has a duplicate, at construction (the
  constructor returns no matcher, so nothing is left to match time); a \<open>TupleMatcher\<close> of
  two \<open>NameMatcher\<close>s named \<open>x\<close> raises it; and children that are themselves
  constructed and have pairwise disjoint names construct successfully.
\<close>

theorem composite_init_conflict:
  "(TupleMatcher_init ms = Inl PatternVarConflict \<longleftrightarrow> \<not> distinct (concat (map var_names ms))) \<and>
   (ListMatcher_init ms = Inl PatternVarConflict \<longleftrightarrow> \<not> distinct (concat (map var_names ms))) \<and>
   (ParallelMatcher_init m1 m2 = Inl PatternVarConflict \<longleftrightarrow>
      \<not> distinct (var_names m1 @ var_names m2)) \<and>
   (ClassMatcher_init c ps kws = Inl PatternVarConflict \<longleftrightarrow>
      \<not> distinct (concat (map var_names (ps @ map snd kws)))) \<and>
   TupleMatcher_init [NameMatcher ''x'', NameMatcher ''x''] = Inl PatternVarConflict \<and>
   (list_all constructed ms \<and> pairwise_disjoint (map var_names ms) \<longrightarrow>
      TupleMatcher_init ms = Inr (TupleMatcher ms) \<and>
      ListMatcher_init ms = Inr (ListMatcher ms)) \<and>
   (constructed m1 \<and> constructed m2 \<and> set (var_names m1) \<inter> set (var_names m2) = {} \<longrightarrow>
      ParallelMatcher_init m1 m2 = Inr (ParallelMatcher m1 m2)) \<and>
   (list_all constructed (ps @ map snd kws) \<and>
    pairwise_disjoint (map var_names (ps @ map snd kws)) \<longrightarrow>
      ClassMatcher_init c ps kws = Inr (ClassMatcher c ps kws))"
proof -
  have seq: "distinct (concat (map var_names xs))"
    if "list_all constructed xs" "pairwise_disjoint (map var_names xs)" for xs
  proof (rule distinct_concat_pairwise)
    show "\<forall>ys \<in> set (map var_names xs). distinct ys"
      using that(1) by (auto simp: list_all_iff constructed_distinct)
    show "pairwise_disjoint (map var_names xs)" by (rule that(2))
  qed
  have par: "distinct (var_names m1 @ var_names m2)"
    if "constructed m1" "constructed m2" "set (var_names m1) \<inter> set (var_names m2) = {}"
    using that by (simp add: constructed_distinct)
  show ?thesis
    using seq [of ms] seq [of "ps @ map snd kws"] par
    by (simp add: TupleMatcher_init_def ListMatcher_init_def ParallelMatcher_init_def
        ClassMatcher_init_def vars_are_disjoint_distinct flatten_def)
qed

theorem composite_init_conflict_witness:
  "list_all constructed [NameMatcher ''a'', LiteralMatcher (Num 5)] \<and>
   pairwise_disjoint (map var_names [NameMatcher ''a'', LiteralMatcher (Num 5)]) \<and>
   TupleMatcher_init [NameMatcher ''a'', LiteralMatcher (Num 5)] =
     Inr (TupleMatcher [NameMatcher ''a'', LiteralMatcher (Num 5)]) \<and>
   ListMatcher_init [NameMatcher ''a'', LiteralMatcher (Num 5)] =
     Inr (ListMatcher [NameMatcher ''a'', LiteralMatcher (Num 5)]) \<and>
   constructed (NameMatcher ''a'') \<and> constructed WildcardMatcher \<and>
   set (var_names (NameMatcher ''a'')) \<inter> set (var_names WildcardMatcher) = {} \<and>
   ParallelMatcher_init (NameMatcher ''a'') WildcardMatcher =
     Inr (ParallelMatcher (NameMatcher ''a'') WildcardMatcher) \<and>
   list_all constructed ([NameMatcher ''px''] @ map snd [(''y'', NameMatcher ''py'')]) \<and>
   pairwise_disjoint (map var_names ([NameMatcher ''px''] @ map snd [(''y'', NameMatcher ''py'')])) \<and>
   ClassMatcher_init Point [NameMatcher ''px''] [(''y'', NameMatcher ''py'')] =
     Inr (ClassMatcher Point [NameMatcher ''px''] [(''y'', NameMatcher ''py'')])"
  using composite_init_conflict [of "[NameMatcher ''a'', LiteralMatcher (Num 5)]"
      "NameMatcher ''a''" WildcardMatcher Point "[NameMatcher ''px'']" "[(''y'', NameMatcher ''py'')]"]
  by simp












text \<open>
  Claim C9. \<open>WildcardMatcher().match(v)\<close> succeeds for every \<open>v\<close> with the single binding of
  \<open>_\<close> to the constant \<open>3\<close>: the result is the same for any two values and is not the
  matched value.
\<close>

theorem WildcardMatcher_placeholder:
  "match WildcardMatcher v = Inr [(''_'', PInt 3)] \<and>
   match WildcardMatcher v1 = match WildcardMatcher v2 \<and>
   match WildcardMatcher (PStr ''abc'') \<noteq> Inr [(''_'', PStr ''abc'')]"
  by simp

lemma ClassMatcher_match_default:
  "unapply c = None \<Longrightarrow> isinstance v c \<Longrightarrow> kw_loop v (map fst kws) [] = Inr kw_dict \<Longrightarrow>
   match (ClassMatcher c ps kws) v =
     bind (match_zip ps (genPosValues c v)) (\<lambda>updates.
     bind (match_items kws kw_dict) (\<lambda>kw_updates. Inr (updates @ kw_updates)))"
  by (simp add: destructure_def default_unapply_def bind_def)

text \<open>
  Claim C7 fails for a positional field: \<open>Point\<close> has the constructor parameter \<open>y\<close>, the
  matchee has no attribute \<open>y\<close>, and the match succeeds, binding \<open>py\<close> to \<open>None\<close>.
\<close>

theorem ClassMatcher_missing_positional_counterexample:
  "unapply Point = None \<and>
   init_args Point = [''self'', ''x'', ''y''] \<and>
   getattr (PObj [''Point''] [(''x'', PInt 1)]) ''y'' = None \<and>
   match (ClassMatcher Point [NameMatcher ''px'', NameMatcher ''py''] [])
     (PObj [''Point''] [(''x'', PInt 1)]) = Inr [(''px'', PInt 1), (''py'', PNone)]"
  by (simp add: Point_def destructure_def default_unapply_def genPosValues_def bind_def)

text \<open>
  Claim C7, amended. On the default destructuring path, a keyword-matcher attribute
  missing on the matchee makes the match raise \<open>PatternMatchException\<close>; a missing
  positional field raises nothing by itself: the sub-matcher of that position is run
  against \<open>None\<close>, the default of \<open>getattr(matchee, arg, None)\<close>.
\<close>

theorem ClassMatcher_missing_attribute:
  assumes "unapply c = None"
  shows "((\<exists>k \<in> set (map fst kws). getattr v k = None) \<longrightarrow>
            match (ClassMatcher c ps kws) v = Inl PatternMatchException) \<and>
         (isinstance v c \<and> kw_loop v (map fst kws) [] = Inr kw_dict \<longrightarrow>
            match (ClassMatcher c ps kws) v =
              bind (match_zip ps
                      (map (\<lambda>a. case getattr v a of None \<Rightarrow> PNone | Some x \<Rightarrow> x)
                         (filter (\<lambda>a. a \<noteq> ''self'') (init_args c)))) (\<lambda>updates.
              bind (match_items kws kw_dict) (\<lambda>kw_updates. Inr (updates @ kw_updates))))"
proof (intro conjI impI)
  assume "\<exists>k \<in> set (map fst kws). getattr v k = None"
  then obtain k where k: "k \<in> set (map fst kws)" "getattr v k = None" by blast
  from kw_loop_missing [OF k] assms
  show "match (ClassMatcher c ps kws) v = Inl PatternMatchException"
    by (simp add: destructure_def default_unapply_def bind_def)
next
  assume "isinstance v c \<and> kw_loop v (map fst kws) [] = Inr kw_dict"
  with ClassMatcher_match_default [OF assms, of v kws kw_dict ps]
  show "match (ClassMatcher c ps kws) v =
              bind (match_zip ps
                      (map (\<lambda>a. case getattr v a of None \<Rightarrow> PNone | Some x \<Rightarrow> x)
                         (filter (\<lambda>a. a \<noteq> ''self'') (init_args c)))) (\<lambda>updates.
              bind (match_items kws kw_dict) (\<lambda>kw_updates. Inr (updates @ kw_updates)))"
    by (simp add: genPosValues_def)
qed

theorem ClassMatcher_missing_attribute_witness:
  "unapply Point = None \<and>
   getattr (PObj [''Point''] [(''x'', PInt 1)]) ''y'' = None \<and>
   match (ClassMatcher Point [] [(''y'', NameMatcher ''py'')]) (PObj [''Point''] [(''x'', PInt 1)]) =
     Inl PatternMatchException \<and>
   isinstance (PObj [''Point''] [(''x'', PInt 1)]) Point \<and>
   kw_loop (PObj [''Point''] [(''x'', PInt 1)]) (map fst [(''x'', NameMatcher ''a'')]) [] =
     Inr [(''x'', PInt 1)] \<and>
   match (ClassMatcher Point [NameMatcher ''px'', NameMatcher ''py''] [(''x'', NameMatcher ''a'')])
     (PObj [''Point''] [(''x'', PInt 1)]) =
     Inr [(''px'', PInt 1), (''py'', PNone), (''a'', PInt 1)]"
proof -
  let ?v = "PObj [''Point''] [(''x'', PInt 1)]"
  have u: "unapply Point = None" by (simp add: Point_def)
  have g: "getattr ?v ''y'' = None" by simp
  have i: "isinstance ?v Point" by (simp add: Point_def)
  have k: "kw_loop ?v (map fst [(''x'', NameMatcher ''a'')]) [] = Inr [(''x'', PInt 1)]"
    by (simp add: hasattr_def)
  from ClassMatcher_missing_attribute [OF u, where kws = "[(''y'', NameMatcher ''py'')]"
      and v = ?v and ps = "[]"] g
  have a: "match (ClassMatcher Point [] [(''y'', NameMatcher ''py'')]) ?v = Inl PatternMatchException"
    by simp
  from ClassMatcher_missing_attribute [OF u, where kws = "[(''x'', NameMatcher ''a'')]" and v = ?v
      and kw_dict = "[(''x'', PInt 1)]" and ps = "[NameMatcher ''px'', NameMatcher ''py'']"] i k
  have b: "match (ClassMatcher Point [NameMatcher ''px'', NameMatcher ''py''] [(''x'', NameMatcher ''a'')]) ?v =
     Inr [(''px'', PInt 1), (''py'', PNone), (''a'', PInt 1)]"
    by (simp add: Point_def bind_def)
  from u g a i k b show ?thesis by simp
qed

text \<open>
  Claim C10. \<open>ClassMatcher.match\<close> pairs its positional sub-matchers with the
  destructured positional values up to the shorter of the two: surplus sub-matchers are
  not run, surplus values are not looked at, and no exception comes from the difference
  in number, whereas \<open>TupleMatcher\<close> and \<open>ListMatcher\<close> raise on any length mismatch.
\<close>

theorem ClassMatcher_no_arity_check:
  "match (ClassMatcher c ps kws) v =
     bind (destructure c v (map fst kws)) (\<lambda>(pos_vals, kw_dict).
     bind (match_zip (take (length pos_vals) ps) (take (length ps) pos_vals)) (\<lambda>updates.
     bind (match_items kws kw_dict) (\<lambda>kw_updates. Inr (updates @ kw_updates)))) \<and>
   (destructure c v (map fst kws) = Inr (pos_vals, kw_dict) \<and> length pos_vals \<le> length ps \<longrightarrow>
      match (ClassMatcher c (ps @ surplus) kws) v = match (ClassMatcher c ps kws) v) \<and>
   (length ps \<le> length pos_vals \<longrightarrow>
      match_zip ps (pos_vals @ surplus_vals) = match_zip ps pos_vals) \<and>
   (length xs \<noteq> length ms \<longrightarrow>
      match (TupleMatcher ms) (PTuple xs) = Inl PatternMatchException \<and>
      match (ListMatcher ms) (PList xs) = Inl PatternMatchException) \<and>
   match (ClassMatcher Point [NameMatcher ''px''] []) (PObj [''Point''] [(''x'', PInt 1), (''y'', PInt 2)]) =
     Inr [(''px'', PInt 1)] \<and>
   match (ClassMatcher Point [NameMatcher ''px'', LiteralMatcher (Num 2), LiteralMatcher (Num 99)] [])
     (PObj [''Point''] [(''x'', PInt 1), (''y'', PInt 2)]) = Inr [(''px'', PInt 1)]"
proof -
  have a: "match (ClassMatcher c ps kws) v =
     bind (destructure c v (map fst kws)) (\<lambda>(pos_vals, kw_dict).
     bind (match_zip (take (length pos_vals) ps) (take (length ps) pos_vals)) (\<lambda>updates.
     bind (match_items kws kw_dict) (\<lambda>kw_updates. Inr (updates @ kw_updates))))"
    using match_zip_take by simp
  have b: "match (ClassMatcher c (ps @ surplus) kws) v = match (ClassMatcher c ps kws) v"
    if "destructure c v (map fst kws) = Inr (pos_vals, kw_dict)" "length pos_vals \<le> length ps"
    using that match_zip_append_matchers [of pos_vals ps surplus] by (simp add: bind_def)
  have e: "match (ClassMatcher Point [NameMatcher ''px''] []) (PObj [''Point''] [(''x'', PInt 1), (''y'', PInt 2)]) =
     Inr [(''px'', PInt 1)]"
   "match (ClassMatcher Point [NameMatcher ''px'', LiteralMatcher (Num 2), LiteralMatcher (Num 99)] [])
     (PObj [''Point''] [(''x'', PInt 1), (''y'', PInt 2)]) = Inr [(''px'', PInt 1)]"
    by (simp_all add: Point_def destructure_def default_unapply_def genPosValues_def bind_def)
  show ?thesis
    using a b e match_zip_append_values [of ps pos_vals surplus_vals] by simp
qed

theorem ClassMatcher_no_arity_check_witness:
  "destructure Point (PObj [''Point''] [(''x'', PInt 1), (''y'', PInt 2)]) (map fst []) =
     Inr ([PInt 1, PInt 2], []) \<and>
   match (ClassMatcher Point ([NameMatcher ''px'', LiteralMatcher (Num 2)] @ [LiteralMatcher (Num 99)]) [])
     (PObj [''Point''] [(''x'', PInt 1), (''y'', PInt 2)]) =
   match (ClassMatcher Point [NameMatcher ''px'', LiteralMatcher (Num 2)] [])
     (PObj [''Point''] [(''x'', PInt 1), (''y'', PInt 2)]) \<and>
   match_zip [NameMatcher ''px''] ([PInt 1] @ [PInt 2]) = match_zip [NameMatcher ''px''] [PInt 1] \<and>
   match (TupleMatcher [NameMatcher ''px'']) (PTuple [PInt 1, PInt 2]) = Inl PatternMatchException \<and>
   match (ListMatcher [NameMatcher ''px'']) (PList [PInt 1, PInt 2]) = Inl PatternMatchException"
proof -
  let ?v = "PObj [''Point''] [(''x'', PInt 1), (''y'', PInt 2)]"
  have d: "destructure Point ?v (map fst []) = Inr ([PInt 1, PInt 2], [])"
    by (simp add: Point_def destructure_def default_unapply_def genPosValues_def bind_def)
  from ClassMatcher_no_arity_check [where c = Point
      and ps = "[NameMatcher ''px'', LiteralMatcher (Num 2)]" and kws = "[]" and v = ?v
      and pos_vals = "[PInt 1, PInt 2]" and kw_dict = "[]"
      and surplus = "[LiteralMatcher (Num 99)]"] d
  have a: "match (ClassMatcher Point ([NameMatcher ''px'', LiteralMatcher (Num 2)] @ [LiteralMatcher (Num 99)]) []) ?v =
   match (ClassMatcher Point [NameMatcher ''px'', LiteralMatcher (Num 2)] []) ?v"
    by simp
  from ClassMatcher_no_arity_check [where ps = "[NameMatcher ''px'']" and pos_vals = "[PInt 1]"
      and surplus_vals = "[PInt 2]" and xs = "[PInt 1, PInt 2]" and ms = "[NameMatcher ''px'']"]
  have b: "match_zip [NameMatcher ''px''] ([PInt 1] @ [PInt 2]) = match_zip [NameMatcher ''px''] [PInt 1]"
    and c: "match (TupleMatcher [NameMatcher ''px'']) (PTuple [PInt 1, PInt 2]) = Inl PatternMatchException"
    and e: "match (ListMatcher [NameMatcher ''px'']) (PList [PInt 1, PInt 2]) = Inl PatternMatchException"
    by simp_all
  from d a b c e show ?thesis by simp
qed

section \<open>Properties of the scope tracker\<close>

subsection \<open>Dictionaries\<close>

lemma keys_update: "keys (AList.update k v d) = insert k (keys d)"
  by (simp add: keys_def dom_update)

lemma keys_dict_update: "keys (dict_update d other) = keys d \<union> keys other"
  unfolding dict_update_def
  by (induction other arbitrary: d) (auto simp: keys_update, auto simp: keys_def)

lemma keys_dict: "keys (dict pairs) = keys pairs"
  by (simp add: dict_def keys_dict_update) (simp add: keys_def)

lemma keys_concat: "keys (concat ds) = (\<Union>d \<in> set ds. keys d)"
  by (auto simp: keys_def)

lemma keys_merge_dicts: "keys (merge_dicts ds) = (\<Union>d \<in> set ds. keys d)"
  by (simp add: merge_dicts_def keys_dict keys_concat)

lemma keys_delete: "keys (AList.delete k d) = keys d - {k}"
  by (auto simp: keys_def AList.delete_eq)

lemma del_keys_Inr:
  "del_keys d rems = Inr d' \<Longrightarrow> keys d' = keys d - set rems"
  by (induction d rems rule: del_keys.induct) (auto simp: keys_delete split: if_splits)

lemma del_keys_one:
  "del_keys d [k] = (if k \<in> keys d then Inr (AList.delete k d) else Inl (KeyError k))"
  by simp

subsection \<open>Walkers that raise nothing\<close>

lemma walker_total:
  fixes F :: "path \<Rightarrow> ast \<Rightarrow> 'c \<Rightarrow> error + ('a, 'c) controls"
  shows "(\<And>p t c. \<exists>r. F p t c = Inr r) \<Longrightarrow> \<exists>xs. recurse_collect F sub ctx pos tree = Inr xs"
    and "(\<And>p t c. \<exists>r. F p t c = Inr r) \<Longrightarrow> \<exists>xs. walk_fields F sub ctx pos flds = Inr xs"
    and "(\<And>p t c. \<exists>r. F p t c = Inr r) \<Longrightarrow> \<exists>xs. walk_children F sub ctx pos val = Inr xs"
    and "(\<And>p t c. \<exists>r. F p t c = Inr r) \<Longrightarrow> \<exists>xs. walk_list F sub ctx pos i trees = Inr xs"
proof (induction F sub ctx pos tree and F sub ctx pos flds and F sub ctx pos val
    and F sub ctx pos i trees rule: recurse_collect_walk_fields_walk_children_walk_list.induct)
  case (1 func sub_kw ctx pos tree)
  from 1(2) obtain r where r: "func pos tree ctx = Inr r" by blast
  show ?case
  proof (cases "stopped r")
    case True
    with r show ?thesis by (simp add: recurse_collect.simps)
  next
    case False
    with 1(1) [OF False 1(2)] r show ?thesis by (auto simp: recurse_collect.simps)
  qed
qed (auto simp: bind_Inr_iff)

lemma find_names_total: "\<exists>r. find_names p t c = Inr r"
  by (simp add: find_names_def)

lemma collect_find_names_total: "\<exists>xs. collect find_names () tree = Inr xs"
  unfolding collect_def by (rule walker_total(1)) (rule find_names_total)

lemma collect_list_find_names_total: "\<exists>xs. collect_list find_names () trees = Inr xs"
  unfolding collect_list_def by (rule walker_total(4)) (rule find_names_total)

lemma find_assignments_total: "\<exists>r. find_assignments p t c = Inr r"
  using collect_list_find_names_total
  by (cases t) (auto simp: find_assignments_def bind_Inr_iff)

lemma collect_list_find_assignments_total:
  "\<exists>xs. collect_list find_assignments () trees = Inr xs"
  unfolding collect_list_def by (rule walker_total(4)) (rule find_assignments_total)

lemma collect_find_assignments_total: "\<exists>xs. collect find_assignments () tree = Inr xs"
  unfolding collect_def by (rule walker_total(1)) (rule find_assignments_total)

subsection \<open>Pending contexts\<close>

lemma sub_ctx_append: "sub_ctx (a @ b) s = sub_ctx a s @ sub_ctx b s"
  by (simp add: sub_ctx_def)

lemma sub_ctx_Nil [simp]: "sub_ctx [] s = []"
  by (simp add: sub_ctx_def)

lemma sub_ctx_Cons:
  "sub_ctx ((p, c) # sub) s =
     (if p \<noteq> [] \<and> hd p = s then (tl p, c) # sub_ctx sub s else sub_ctx sub s)"
  by (simp add: sub_ctx_def)

lemma ctx_at_Nil [simp]: "ctx_at [] ctx = ctx"
  by (simp add: ctx_at_def)

lemma ctx_at_Cons: "ctx_at ((p, c) # sub) ctx = ctx_at sub (if p = [] then c else ctx)"
  by (simp add: ctx_at_def)

lemma ctx_at_append: "ctx_at (a @ b) ctx = ctx_at b (ctx_at a ctx)"
  by (simp add: ctx_at_def)

subsection \<open>What a traversal returns\<close>

lemma recurse_collect_Inr:
  assumes "recurse_collect F sub ctx pos tree = Inr V"
  obtains r where "F pos tree ctx = Inr r" "stopped r" "V = collected r"
  | r W where "F pos tree ctx = Inr r" "\<not> stopped r"
      "walk_fields F (sub @ ctx_for r) ctx pos (iter_fields tree) = Inr W" "V = collected r @ W"
  using assms by (auto simp: recurse_collect.simps bind_Inr_iff split: if_splits)

lemma walk_fields_child:
  "walk_fields F sub ctx pos flds = Inr V \<Longrightarrow> (name, val) \<in> set flds \<Longrightarrow>
   \<exists>V'. walk_children F (sub_ctx sub (InField name)) (ctx_at (sub_ctx sub (InField name)) ctx)
           (pos @ [InField name]) val = Inr V' \<and> set V' \<subseteq> set V"
proof (induction flds arbitrary: V)
  case Nil
  then show ?case by simp
next
  case (Cons fld flds)
  obtain n v where fld: "fld = (n, v)" by (cases fld)
  from Cons.prems(1) fld obtain A B where
    A: "walk_children F (sub_ctx sub (InField n)) (ctx_at (sub_ctx sub (InField n)) ctx)
          (pos @ [InField n]) v = Inr A"
    and B: "walk_fields F sub ctx pos flds = Inr B" and V: "V = A @ B"
    by (auto simp: bind_Inr_iff)
  show ?case
  proof (cases "(name, val) = (n, v)")
    case True
    with A V show ?thesis by auto
  next
    case False
    with Cons.prems(2) fld have "(name, val) \<in> set flds" by auto
    from Cons.IH [OF B this] V show ?thesis by auto
  qed
qed

lemma walk_list_child:
  "walk_list F sub ctx pos i trees = Inr V \<Longrightarrow> k < length trees \<Longrightarrow>
   \<exists>V'. recurse_collect F (sub_ctx sub (AtIndex (i + k)))
           (ctx_at (sub_ctx sub (AtIndex (i + k))) ctx) (pos @ [AtIndex (i + k)]) (trees ! k) = Inr V'
         \<and> set V' \<subseteq> set V"
proof (induction trees arbitrary: V i k)
  case Nil
  then show ?case by simp
next
  case (Cons t ts)
  from Cons.prems(1) obtain A B where
    A: "recurse_collect F (sub_ctx sub (AtIndex i)) (ctx_at (sub_ctx sub (AtIndex i)) ctx)
          (pos @ [AtIndex i]) t = Inr A"
    and B: "walk_list F sub ctx pos (Suc i) ts = Inr B" and V: "V = A @ B"
    by (auto simp: bind_Inr_iff)
  show ?case
  proof (cases k)
    case 0
    with A V show ?thesis by auto
  next
    case (Suc k')
    with Cons.prems(2) have "k' < length ts" by simp
    from Cons.IH [OF B this] V Suc show ?thesis by auto
  qed
qed

subsection \<open>The scope tracker around the observing walker\<close>

lemma Scoped_observe_Inr:
  "Scoped_func observe pos tree scope = Inr r \<longleftrightarrow>
     (\<exists>rs. extensions scope tree = Inr rs \<and>
           r = \<lparr>collected = [(pos, tree, map fst scope)], stopped = False, ctx_for = rs\<rparr>)"
  by (auto simp: Scoped_func_def observe_def bind_Inr_iff)

lemma Scoped_visit:
  assumes "recurse_collect (Scoped_func observe) sub scope pos tree = Inr V"
  obtains rs W where "extensions scope tree = Inr rs"
    "walk_fields (Scoped_func observe) (sub @ rs) scope pos (iter_fields tree) = Inr W"
    "V = (pos, tree, map fst scope) # W"
  using assms by (elim recurse_collect_Inr) (auto simp: Scoped_observe_Inr)

lemma Scoped_child_single:
  assumes "recurse_collect (Scoped_func observe) sub scope pos tree = Inr V"
    and "extensions scope tree = Inr rs"
    and "(name, Single child) \<in> set (iter_fields tree)"
  shows "\<exists>V'. recurse_collect (Scoped_func observe) (sub_ctx (sub @ rs) (InField name))
           (ctx_at (sub_ctx (sub @ rs) (InField name)) scope) (pos @ [InField name]) child = Inr V'
         \<and> set V' \<subseteq> set V"
proof -
  from assms(1) obtain rs' W where 1: "extensions scope tree = Inr rs'"
    "walk_fields (Scoped_func observe) (sub @ rs') scope pos (iter_fields tree) = Inr W"
    "V = (pos, tree, map fst scope) # W"
    by (rule Scoped_visit)
  with assms(2) have "rs' = rs" by simp
  with walk_fields_child [OF 1(2) assms(3)] 1(3) show ?thesis by auto
qed

lemma Scoped_child_many:
  assumes "recurse_collect (Scoped_func observe) sub scope pos tree = Inr V"
    and "extensions scope tree = Inr rs"
    and "(name, Many children) \<in> set (iter_fields tree)"
    and "k < length children"
  shows "\<exists>V'. recurse_collect (Scoped_func observe)
           (sub_ctx (sub_ctx (sub @ rs) (InField name)) (AtIndex k))
           (ctx_at (sub_ctx (sub_ctx (sub @ rs) (InField name)) (AtIndex k))
              (ctx_at (sub_ctx (sub @ rs) (InField name)) scope))
           (pos @ [InField name, AtIndex k]) (children ! k) = Inr V'
         \<and> set V' \<subseteq> set V"
proof -
  from assms(1) obtain rs' W where 1: "extensions scope tree = Inr rs'"
    "walk_fields (Scoped_func observe) (sub @ rs') scope pos (iter_fields tree) = Inr W"
    "V = (pos, tree, map fst scope) # W"
    by (rule Scoped_visit)
  with assms(2) have rs: "rs' = rs" by simp
  from walk_fields_child [OF 1(2) assms(3)] rs obtain V1 where
    V1: "walk_list (Scoped_func observe) (sub_ctx (sub @ rs) (InField name))
           (ctx_at (sub_ctx (sub @ rs) (InField name)) scope) (pos @ [InField name]) 0 children = Inr V1"
      "set V1 \<subseteq> set W"
    by auto
  from walk_list_child [OF V1(1) assms(4)] V1(2) 1(3) show ?thesis by auto
qed

lemma Scoped_visit_head:
  "recurse_collect (Scoped_func observe) sub scope pos tree = Inr V \<Longrightarrow>
   (pos, tree, map fst scope) \<in> set V"
  by (erule Scoped_visit) simp

subsection \<open>Every position is visited once\<close>

lemma distinct_iter_fields: "distinct (map fst (iter_fields tree))"
  by (cases tree) simp_all

lemma positions:
  shows "recurse_collect (Scoped_func observe) sub scope pos tree = Inr V \<Longrightarrow>
           distinct (map fst V) \<and> (\<forall>q \<in> fst ` set V. prefix pos q)"
    and "walk_fields (Scoped_func observe) sub scope pos flds = Inr V \<Longrightarrow>
           distinct (map fst flds) \<Longrightarrow>
           distinct (map fst V) \<and>
           (\<forall>q \<in> fst ` set V. \<exists>name \<in> fst ` set flds. prefix (pos @ [InField name]) q)"
    and "walk_children (Scoped_func observe) sub scope pos val = Inr V \<Longrightarrow>
           distinct (map fst V) \<and> (\<forall>q \<in> fst ` set V. prefix pos q)"
    and "walk_list (Scoped_func observe) sub scope pos i trees = Inr V \<Longrightarrow>
           distinct (map fst V) \<and>
           (\<forall>q \<in> fst ` set V. \<exists>j \<ge> i. prefix (pos @ [AtIndex j]) q)"
proof (induction "Scoped_func observe :: path \<Rightarrow> ast \<Rightarrow> scope \<Rightarrow> _" sub scope pos tree
    and "Scoped_func observe :: path \<Rightarrow> ast \<Rightarrow> scope \<Rightarrow> _" sub scope pos flds
    and "Scoped_func observe :: path \<Rightarrow> ast \<Rightarrow> scope \<Rightarrow> _" sub scope pos val
    and "Scoped_func observe :: path \<Rightarrow> ast \<Rightarrow> scope \<Rightarrow> _" sub scope pos i trees
    arbitrary: V and V and V and V
    rule: recurse_collect_walk_fields_walk_children_walk_list.induct)
  case (1 sub_kw ctx pos tree)
  from 1(2) obtain rs W where rs: "extensions ctx tree = Inr rs"
    and W: "walk_fields (Scoped_func observe) (sub_kw @ rs) ctx pos (iter_fields tree) = Inr W"
    and V: "V = (pos, tree, map fst ctx) # W"
    by (rule Scoped_visit)
  from 1(1) [of "\<lparr>collected = [(pos, tree, map fst ctx)], stopped = False, ctx_for = rs\<rparr>" W]
    W distinct_iter_fields [of tree]
  have IH: "distinct (map fst W)"
    "\<forall>q \<in> fst ` set W. \<exists>name \<in> fst ` set (iter_fields tree). prefix (pos @ [InField name]) q"
    by auto
  have "pos \<notin> fst ` set W"
  proof
    assume "pos \<in> fst ` set W"
    with IH(2) obtain name where "prefix (pos @ [InField name]) pos" by blast
    then show False by (auto simp: prefix_def)
  qed
  moreover have "\<forall>q \<in> fst ` set W. prefix pos q"
    using IH(2) by (meson append_prefixD)
  ultimately show ?case using V IH(1) by auto
next
  case (2 sub_kw ctx pos)
  then show ?case by simp
next
  case (3 sub_kw ctx pos name val flds)
  from 3(3) obtain A B where
    A: "walk_children (Scoped_func observe) (sub_ctx sub_kw (InField name))
          (ctx_at (sub_ctx sub_kw (InField name)) ctx) (pos @ [InField name]) val = Inr A"
    and B: "walk_fields (Scoped_func observe) sub_kw ctx pos flds = Inr B" and V: "V = A @ B"
    by (auto simp: bind_Inr_iff)
  from 3(1) [OF A] have IA: "distinct (map fst A)"
    "\<forall>q \<in> fst ` set A. prefix (pos @ [InField name]) q" by auto
  from 3(4) have d: "distinct (map fst flds)" "name \<notin> fst ` set flds" by auto
  from 3(2) [OF B d(1)] have IB: "distinct (map fst B)"
    "\<forall>q \<in> fst ` set B. \<exists>n \<in> fst ` set flds. prefix (pos @ [InField n]) q" by auto
  have disj: "fst ` set A \<inter> fst ` set B = {}"
  proof (rule ccontr)
    assume "fst ` set A \<inter> fst ` set B \<noteq> {}"
    then obtain q where q: "q \<in> fst ` set A" "q \<in> fst ` set B" by blast
    from q(1) IA(2) have 1: "prefix (pos @ [InField name]) q" by blast
    from q(2) IB(2) obtain n where n: "n \<in> fst ` set flds" "prefix (pos @ [InField n]) q" by blast
    from 1 n(2) have "n = name" by (auto simp: prefix_def append_eq_append_conv2 Cons_eq_append_conv)
    with n(1) d(2) show False by simp
  qed
  have "distinct (map fst V)" using V IA(1) IB(1) disj by auto
  moreover have "\<forall>q \<in> fst ` set V. \<exists>n \<in> fst ` set ((name, val) # flds). prefix (pos @ [InField n]) q"
    using V IA(2) IB(2) by (auto simp: image_Un)
  ultimately show ?case by blast
next
  case (4 sub_kw ctx pos tree)
  then show ?case by simp
next
  case (5 sub_kw ctx pos trees)
  from 5(1) [OF 5(2) [simplified]] have "distinct (map fst V)"
    "\<forall>q \<in> fst ` set V. \<exists>j \<ge> 0. prefix (pos @ [AtIndex j]) q" by auto
  then show ?case by (meson append_prefixD)
next
  case (6 sub_kw ctx pos)
  then show ?case by simp
next
  case (7 sub_kw ctx pos i)
  then show ?case by simp
next
  case (8 sub_kw ctx pos i tree trees)
  from 8(3) obtain A B where
    A: "recurse_collect (Scoped_func observe) (sub_ctx sub_kw (AtIndex i))
          (ctx_at (sub_ctx sub_kw (AtIndex i)) ctx) (pos @ [AtIndex i]) tree = Inr A"
    and B: "walk_list (Scoped_func observe) sub_kw ctx pos (Suc i) trees = Inr B" and V: "V = A @ B"
    by (auto simp: bind_Inr_iff)
  from 8(1) [OF A] have IA: "distinct (map fst A)"
    "\<forall>q \<in> fst ` set A. prefix (pos @ [AtIndex i]) q" by auto
  from 8(2) [OF B] have IB: "distinct (map fst B)"
    "\<forall>q \<in> fst ` set B. \<exists>j \<ge> Suc i. prefix (pos @ [AtIndex j]) q" by auto
  have disj: "fst ` set A \<inter> fst ` set B = {}"
  proof (rule ccontr)
    assume "fst ` set A \<inter> fst ` set B \<noteq> {}"
    then obtain q where q: "q \<in> fst ` set A" "q \<in> fst ` set B" by blast
    from q(1) IA(2) have 1: "prefix (pos @ [AtIndex i]) q" by blast
    from q(2) IB(2) obtain j where j: "j \<ge> Suc i" "prefix (pos @ [AtIndex j]) q" by blast
    from 1 j(2) have "j = i" by (auto simp: prefix_def append_eq_append_conv2 Cons_eq_append_conv)
    with j(1) show False by simp
  qed
  have "distinct (map fst V)" using V IA(1) IB(1) disj by auto
  moreover have "\<forall>q \<in> fst ` set V. \<exists>j \<ge> i. prefix (pos @ [AtIndex j]) q"
  proof
    fix q assume "q \<in> fst ` set V"
    with V have "q \<in> fst ` set A \<or> q \<in> fst ` set B" by auto
    then show "\<exists>j \<ge> i. prefix (pos @ [AtIndex j]) q"
    proof
      assume "q \<in> fst ` set A"
      with IA(2) show ?thesis by blast
    next
      assume "q \<in> fst ` set B"
      with IB(2) obtain j where "j \<ge> Suc i" "prefix (pos @ [AtIndex j]) q" by blast
      then show ?thesis by (intro exI [of _ j]) simp
    qed
  qed
  ultimately show ?case by blast
qed

lemma scope_at_member:
  assumes "recurse_collect (Scoped_func observe) sub scope pos tree = Inr V"
    and "(q, x) \<in> set V"
  shows "scope_at V q = Some x"
  using positions(1) [OF assms(1)] assms(2) by (simp add: scope_at_def)

lemma keys_map_fst: "set (map fst d) = keys d"
  by (simp add: keys_def)

lemma keys_image: "fst ` set d = keys d"
  by (simp add: keys_def)

lemma Scoped_single_scope:
  assumes "collect (Scoped_func observe) scope tree = Inr visits"
    and "extensions scope tree = Inr rs"
    and "(name, Single child) \<in> set (iter_fields tree)"
    and "ctx_at (sub_ctx rs (InField name)) scope = s"
  shows "scope_at visits [InField name] = Some (child, map fst s)"
proof -
  from Scoped_child_single [OF assms(1) [unfolded collect_def] assms(2,3)] assms(4)
  obtain V' where V': "recurse_collect (Scoped_func observe) (sub_ctx rs (InField name)) s
      [InField name] child = Inr V'" "set V' \<subseteq> set visits"
    by auto
  from Scoped_visit_head [OF V'(1)] V'(2)
  have "([InField name], child, map fst s) \<in> set visits" by blast
  then show ?thesis by (rule scope_at_member [OF assms(1) [unfolded collect_def]])
qed

lemma Scoped_many_scope:
  assumes "collect (Scoped_func observe) scope tree = Inr visits"
    and "extensions scope tree = Inr rs"
    and "(name, Many children) \<in> set (iter_fields tree)"
    and "k < length children"
    and "ctx_at (sub_ctx (sub_ctx rs (InField name)) (AtIndex k))
           (ctx_at (sub_ctx rs (InField name)) scope) = s"
  shows "scope_at visits [InField name, AtIndex k] = Some (children ! k, map fst s)"
proof -
  from Scoped_child_many [OF assms(1) [unfolded collect_def] assms(2,3,4)] assms(5)
  obtain V' where V': "recurse_collect (Scoped_func observe)
      (sub_ctx (sub_ctx rs (InField name)) (AtIndex k)) s
      [InField name, AtIndex k] (children ! k) = Inr V'" "set V' \<subseteq> set visits"
    by auto
  from Scoped_visit_head [OF V'(1)] V'(2)
  have "([InField name, AtIndex k], children ! k, map fst s) \<in> set visits" by blast
  then show ?thesis by (rule scope_at_member [OF assms(1) [unfolded collect_def]])
qed

lemma Scoped_collect_extensions:
  assumes "collect (Scoped_func observe) scope tree = Inr visits"
  obtains rs where "extensions scope tree = Inr rs"
  using assms unfolding collect_def by (elim Scoped_visit)

lemma extend_scope_Inr:
  "extend_scope scope target dicts remove = Inr rs \<longleftrightarrow>
     (\<exists>s. del_keys (merge_dicts (scope # dicts)) remove = Inr s \<and> rs = [(target, s)])"
  by (auto simp: extend_scope_def bind_Inr_iff)

lemma extensions_ClassDef:
  "extensions scope (ClassDef name bases keywords body decorator_list) = Inr rs \<longleftrightarrow>
     (\<exists>s1 s2 assignments.
        Some name \<in> keys scope \<and>
        collect_list find_assignments () body = Inr assignments \<and>
        s1 = AList.delete (Some name) (merge_dicts [scope]) \<and>
        s2 = AList.delete (Some name) (merge_dicts [scope, dict assignments]) \<and>
        rs = [([InField ''bases''], s1), ([InField ''body''], s2)])"
  by (auto simp: extend_scope_Inr bind_Inr_iff keys_merge_dicts keys_dict split: if_splits)

text \<open>
  The scopes of a class definition whose traversal returns: the scope of every base-class
  expression is the scope of the definition less the class's own name, and the scope of
  every statement of the body is that scope with the bindings hoisted from the body, less
  the class's own name; for \<open>class C(Base): z = 1\<close> traversed from the module the scope
  at \<open>Base\<close> is empty and the scope at \<open>z = 1\<close> is \<open>{z}\<close>. The extensions are made when
  the class's own name is in the scope the definition is visited with.
\<close>

theorem ClassDef_scopes:
  "(Some name \<in> keys scope \<longrightarrow>
      (\<exists>rs. extensions scope (ClassDef name bases keywords body decorator_list) = Inr rs)) \<and>
   (collect (Scoped_func observe) scope (ClassDef name bases keywords body decorator_list) = Inr visits
    \<longrightarrow>
      (\<forall>k < length bases. \<exists>ks.
          scope_at visits [InField ''bases'', AtIndex k] = Some (bases ! k, ks) \<and>
          set ks = keys scope - {Some name}) \<and>
      (\<forall>k < length body. \<exists>ks.
          scope_at visits [InField ''body'', AtIndex k] = Some (body ! k, ks) \<and>
          set ks = (keys scope \<union> hoisted body) - {Some name})) \<and>
   (\<exists>visits.
      Scoped_collect observe
        (Module [ClassDef ''C'' [Name ''Base''] [] [Assign [Name ''z''] (Other ''Num'' [])] []]) None
        = Inr visits \<and>
      scope_at visits [InField ''body'', AtIndex 0] =
        Some (ClassDef ''C'' [Name ''Base''] [] [Assign [Name ''z''] (Other ''Num'' [])] [], [Some ''C'']) \<and>
      scope_at visits [InField ''body'', AtIndex 0, InField ''bases'', AtIndex 0] =
        Some (Name ''Base'', []) \<and>
      scope_at visits [InField ''body'', AtIndex 0, InField ''body'', AtIndex 0] =
        Some (Assign [Name ''z''] (Other ''Num'' []), [Some ''z'']))"
proof (intro conjI impI allI)
  assume "Some name \<in> keys scope"
  then show "\<exists>rs. extensions scope (ClassDef name bases keywords body decorator_list) = Inr rs"
    using collect_list_find_assignments_total [of body]
    by (auto simp: extensions_ClassDef simp del: extensions.simps)
next
  fix k
  assume t: "collect (Scoped_func observe) scope (ClassDef name bases keywords body decorator_list)
      = Inr visits" and k: "k < length bases"
  from t obtain rs where rs: "extensions scope (ClassDef name bases keywords body decorator_list) = Inr rs"
    by (rule Scoped_collect_extensions)
  then obtain assignments where a: "Some name \<in> keys scope"
    "rs = [([InField ''bases''], AList.delete (Some name) (merge_dicts [scope])),
           ([InField ''body''], AList.delete (Some name) (merge_dicts [scope, dict assignments]))]"
    unfolding extensions_ClassDef by blast
  have "scope_at visits [InField ''bases'', AtIndex k] =
      Some (bases ! k, map fst (AList.delete (Some name) (merge_dicts [scope])))"
    by (rule Scoped_many_scope [OF t rs _ k]) (simp_all add: a(2) sub_ctx_Cons ctx_at_Cons)
  then show "\<exists>ks. scope_at visits [InField ''bases'', AtIndex k] = Some (bases ! k, ks) \<and>
      set ks = keys scope - {Some name}"
    by (simp add: keys_image keys_delete keys_merge_dicts)
next
  fix k
  assume t: "collect (Scoped_func observe) scope (ClassDef name bases keywords body decorator_list)
      = Inr visits" and k: "k < length body"
  from t obtain rs where rs: "extensions scope (ClassDef name bases keywords body decorator_list) = Inr rs"
    by (rule Scoped_collect_extensions)
  then obtain assignments where a: "collect_list find_assignments () body = Inr assignments"
    "rs = [([InField ''bases''], AList.delete (Some name) (merge_dicts [scope])),
           ([InField ''body''], AList.delete (Some name) (merge_dicts [scope, dict assignments]))]"
    unfolding extensions_ClassDef by blast
  have "scope_at visits [InField ''body'', AtIndex k] =
      Some (body ! k, map fst (AList.delete (Some name) (merge_dicts [scope, dict assignments])))"
    by (rule Scoped_many_scope [OF t rs _ k]) (simp_all add: a(2) sub_ctx_Cons ctx_at_Cons)
  then show "\<exists>ks. scope_at visits [InField ''body'', AtIndex k] = Some (body ! k, ks) \<and>
      set ks = (keys scope \<union> hoisted body) - {Some name}"
    by (simp add: keys_image keys_delete keys_merge_dicts keys_dict hoisted_def a(1))
next
  show "\<exists>visits.
      Scoped_collect observe
        (Module [ClassDef ''C'' [Name ''Base''] [] [Assign [Name ''z''] (Other ''Num'' [])] []]) None
        = Inr visits \<and>
      scope_at visits [InField ''body'', AtIndex 0] =
        Some (ClassDef ''C'' [Name ''Base''] [] [Assign [Name ''z''] (Other ''Num'' [])] [], [Some ''C'']) \<and>
      scope_at visits [InField ''body'', AtIndex 0, InField ''bases'', AtIndex 0] =
        Some (Name ''Base'', []) \<and>
      scope_at visits [InField ''body'', AtIndex 0, InField ''body'', AtIndex 0] =
        Some (Assign [Name ''z''] (Other ''Num'' []), [Some ''z''])"
    by (simp add: Scoped_collect_def collect_def collect_list_def recurse_collect.simps
        find_assignments_def find_names_def Scoped_func_def observe_def extend_scope_def
        merge_dicts_def dict_def dict_update_def keys_def sub_ctx_Cons ctx_at_Cons scope_at_def)
qed

lemma targets_before_0 [simp]: "targets_before generators 0 = {}"
  by (simp add: targets_before_def)

lemma targets_before_Suc [simp]:
  "targets_before (gen # generators) (Suc k) = clause_names gen \<union> targets_before generators k"
  by (simp add: targets_before_def)

lemma Scoped_single_in:
  assumes "recurse_collect (Scoped_func observe) sub scope pos tree = Inr V"
    and "extensions scope tree = Inr rs"
    and "(name, Single child) \<in> set (iter_fields tree)"
    and "ctx_at (sub_ctx (sub @ rs) (InField name)) scope = s"
  shows "(pos @ [InField name], child, map fst s) \<in> set V"
proof -
  from Scoped_child_single [OF assms(1,2,3)] assms(4)
  obtain V' where V': "recurse_collect (Scoped_func observe) (sub_ctx (sub @ rs) (InField name)) s
      (pos @ [InField name]) child = Inr V'" "set V' \<subseteq> set V"
    by auto
  from Scoped_visit_head [OF V'(1)] V'(2) show ?thesis by blast
qed

lemma Scoped_many_in:
  assumes "recurse_collect (Scoped_func observe) sub scope pos tree = Inr V"
    and "extensions scope tree = Inr rs"
    and "(name, Many children) \<in> set (iter_fields tree)"
    and "k < length children"
    and "ctx_at (sub_ctx (sub_ctx (sub @ rs) (InField name)) (AtIndex k))
           (ctx_at (sub_ctx (sub @ rs) (InField name)) scope) = s"
  shows "(pos @ [InField name, AtIndex k], children ! k, map fst s) \<in> set V"
proof -
  from Scoped_child_many [OF assms(1,2,3,4)] assms(5)
  obtain V' where V': "recurse_collect (Scoped_func observe)
      (sub_ctx (sub_ctx (sub @ rs) (InField name)) (AtIndex k)) s
      (pos @ [InField name, AtIndex k]) (children ! k) = Inr V'" "set V' \<subseteq> set V"
    by auto
  from Scoped_visit_head [OF V'(1)] V'(2) show ?thesis by blast
qed

lemma generators_loop_Cons:
  "generators_loop scope iv i (gen # generators) = Inr (rs, fv) \<longleftrightarrow>
     (\<exists>target iter ifs names rs'.
        gen = comprehension target iter ifs \<and>
        collect find_names () target = Inr names \<and>
        generators_loop scope (dict_update iv (dict names)) (Suc i) generators = Inr (rs', fv) \<and>
        rs = [([InField ''generators'', AtIndex i, InField ''target''], merge_dicts [scope, iv]),
              ([InField ''generators'', AtIndex i, InField ''iter''], merge_dicts [scope, iv]),
              ([InField ''generators'', AtIndex i, InField ''ifs''],
               merge_dicts [scope, dict_update iv (dict names)])] @ rs')"
  by (cases gen) (auto simp: extend_scope_Inr bind_Inr_iff)

lemma bound_names_Inr: "collect find_names () target = Inr names \<Longrightarrow> bound_names target = keys names"
  by (simp add: bound_names_def)

lemma generators_loop_final:
  "generators_loop scope iv i generators = Inr (rs, fv) \<Longrightarrow>
   keys fv = keys iv \<union> targets_before generators (length generators)"
proof (induction generators arbitrary: iv i rs fv)
  case Nil
  then show ?case by simp
next
  case (Cons gen generators)
  from Cons.prems obtain target iter ifs names rs' where
    g: "gen = comprehension target iter ifs" "collect find_names () target = Inr names"
    "generators_loop scope (dict_update iv (dict names)) (Suc i) generators = Inr (rs', fv)"
    unfolding generators_loop_Cons by blast
  from Cons.IH [OF g(3)] g(1) bound_names_Inr [OF g(2)]
  show ?case by (auto simp: keys_dict_update keys_dict)
qed

lemma generators_loop_shape:
  "generators_loop scope iv i generators = Inr (rs, fv) \<Longrightarrow>
   (\<forall>name. name \<noteq> ''generators'' \<longrightarrow> sub_ctx rs (InField name) = []) \<and>
   (\<forall>j < i. sub_ctx (sub_ctx rs (InField ''generators'')) (AtIndex j) = []) \<and>
   ctx_at (sub_ctx rs (InField ''generators'')) ctx = ctx"
proof (induction generators arbitrary: iv i rs fv)
  case Nil
  then show ?case by simp
next
  case (Cons gen generators)
  from Cons.prems obtain names rs' where
    g: "generators_loop scope (dict_update iv (dict names)) (Suc i) generators = Inr (rs', fv)"
    "rs = [([InField ''generators'', AtIndex i, InField ''target''], merge_dicts [scope, iv]),
              ([InField ''generators'', AtIndex i, InField ''iter''], merge_dicts [scope, iv]),
              ([InField ''generators'', AtIndex i, InField ''ifs''],
               merge_dicts [scope, dict_update iv (dict names)])] @ rs'"
    unfolding generators_loop_Cons by blast
  from Cons.IH [OF g(1)] show ?case
    by (simp add: g(2) sub_ctx_append sub_ctx_Cons ctx_at_append ctx_at_Cons)
qed

lemma generators_loop_clause:
  "generators_loop scope iv i generators = Inr (rs, fv) \<Longrightarrow> k < length generators \<Longrightarrow>
   \<exists>target iter ifs s1 s2.
     generators ! k = comprehension target iter ifs \<and>
     keys s1 = keys scope \<union> keys iv \<union> targets_before generators k \<and>
     keys s2 = keys scope \<union> keys iv \<union> targets_before generators (Suc k) \<and>
     sub_ctx (sub_ctx rs (InField ''generators'')) (AtIndex (i + k)) =
       [([InField ''target''], s1), ([InField ''iter''], s1), ([InField ''ifs''], s2)]"
proof (induction generators arbitrary: iv i rs fv k)
  case Nil
  then show ?case by simp
next
  case (Cons gen generators)
  from Cons.prems(1) obtain target iter ifs names rs' where
    g: "gen = comprehension target iter ifs" "collect find_names () target = Inr names"
    "generators_loop scope (dict_update iv (dict names)) (Suc i) generators = Inr (rs', fv)"
    "rs = [([InField ''generators'', AtIndex i, InField ''target''], merge_dicts [scope, iv]),
              ([InField ''generators'', AtIndex i, InField ''iter''], merge_dicts [scope, iv]),
              ([InField ''generators'', AtIndex i, InField ''ifs''],
               merge_dicts [scope, dict_update iv (dict names)])] @ rs'"
    unfolding generators_loop_Cons by blast
  note bn = bound_names_Inr [OF g(2)]
  show ?case
  proof (cases k)
    case 0
    from generators_loop_shape [OF g(3)]
    have "sub_ctx (sub_ctx rs' (InField ''generators'')) (AtIndex i) = []" by simp
    then have "sub_ctx (sub_ctx rs (InField ''generators'')) (AtIndex (i + k)) =
       [([InField ''target''], merge_dicts [scope, iv]), ([InField ''iter''], merge_dicts [scope, iv]),
        ([InField ''ifs''], merge_dicts [scope, dict_update iv (dict names)])]"
      by (simp add: 0 g(4) sub_ctx_append sub_ctx_Cons)
    moreover have "keys (merge_dicts [scope, iv]) = keys scope \<union> keys iv \<union> targets_before (gen # generators) k"
      by (simp add: 0 keys_merge_dicts)
    moreover have "keys (merge_dicts [scope, dict_update iv (dict names)]) =
        keys scope \<union> keys iv \<union> targets_before (gen # generators) (Suc k)"
      by (auto simp: 0 g(1) bn keys_merge_dicts keys_dict_update keys_dict)
    ultimately show ?thesis using g(1) 0 by auto
  next
    case (Suc k')
    with Cons.prems(2) have k': "k' < length generators" by simp
    from Cons.IH [OF g(3) k'] obtain t it fs s1 s2 where
      ih: "generators ! k' = comprehension t it fs"
      "keys s1 = keys scope \<union> keys (dict_update iv (dict names)) \<union> targets_before generators k'"
      "keys s2 = keys scope \<union> keys (dict_update iv (dict names)) \<union> targets_before generators (Suc k')"
      "sub_ctx (sub_ctx rs' (InField ''generators'')) (AtIndex (Suc i + k')) =
         [([InField ''target''], s1), ([InField ''iter''], s1), ([InField ''ifs''], s2)]"
      by blast
    have "sub_ctx (sub_ctx rs (InField ''generators'')) (AtIndex (i + k)) =
         [([InField ''target''], s1), ([InField ''iter''], s1), ([InField ''ifs''], s2)]"
      using ih(4) by (simp add: Suc g(4) sub_ctx_append sub_ctx_Cons)
    moreover have "keys s1 = keys scope \<union> keys iv \<union> targets_before (gen # generators) k"
      using ih(2) by (auto simp: Suc g(1) bn keys_dict_update keys_dict)
    moreover have "keys s2 = keys scope \<union> keys iv \<union> targets_before (gen # generators) (Suc k)"
      using ih(3) by (auto simp: Suc g(1) bn keys_dict_update keys_dict)
    ultimately show ?thesis using ih(1) Suc by auto
  qed
qed

lemma comprehension_clause_scopes:
  assumes t: "collect (Scoped_func observe) scope tree = Inr visits"
    and ext: "extensions scope tree = Inr (rs @ tail)"
    and gl: "generators_loop scope [] 0 generators = Inr (rs, fv)"
    and gf: "(''generators'', Many generators) \<in> set (iter_fields tree)"
    and tail: "sub_ctx tail (InField ''generators'') = []"
    and i: "i < length generators"
  shows "\<exists>target iter ifs.
      generators ! i = comprehension target iter ifs \<and>
      (\<exists>ks. scope_at visits [InField ''generators'', AtIndex i, InField ''target''] = Some (target, ks) \<and>
            set ks = keys scope \<union> targets_before generators i) \<and>
      (\<exists>ks. scope_at visits [InField ''generators'', AtIndex i, InField ''iter''] = Some (iter, ks) \<and>
            set ks = keys scope \<union> targets_before generators i) \<and>
      (\<forall>m < length ifs. \<exists>ks.
          scope_at visits [InField ''generators'', AtIndex i, InField ''ifs'', AtIndex m] =
            Some (ifs ! m, ks) \<and>
          set ks = keys scope \<union> targets_before generators (Suc i))"
proof -
  note t' = t [unfolded collect_def]
  from generators_loop_clause [OF gl i] obtain target iter ifs s1 s2 where
    c: "generators ! i = comprehension target iter ifs"
    and s1: "keys s1 = keys scope \<union> targets_before generators i"
    and s2: "keys s2 = keys scope \<union> targets_before generators (Suc i)"
    and sub: "sub_ctx (sub_ctx rs (InField ''generators'')) (AtIndex i) =
       [([InField ''target''], s1), ([InField ''iter''], s1), ([InField ''ifs''], s2)]"
    by (auto simp: keys_def)
  let ?sub = "[([InField ''target''], s1), ([InField ''iter''], s1), ([InField ''ifs''], s2)]"
  from generators_loop_shape [OF gl, of scope]
  have sh: "ctx_at (sub_ctx rs (InField ''generators'')) scope = scope" by simp
  from Scoped_child_many [OF t' ext gf i]
  obtain V' where V': "recurse_collect (Scoped_func observe) ?sub scope
      [InField ''generators'', AtIndex i] (comprehension target iter ifs) = Inr V'"
    "set V' \<subseteq> set visits"
    by (auto simp: sub_ctx_append tail sub sh c ctx_at_Cons)
  have e: "extensions scope (comprehension target iter ifs) = Inr []" by simp
  have "([InField ''generators'', AtIndex i] @ [InField ''target''], target, map fst s1) \<in> set V'"
    by (rule Scoped_single_in [OF V'(1) e]) (simp_all add: sub_ctx_Cons ctx_at_Cons)
  with V'(2) have "([InField ''generators'', AtIndex i, InField ''target''], target, map fst s1) \<in> set visits"
    by auto
  from scope_at_member [OF t' this] s1
  have 1: "\<exists>ks. scope_at visits [InField ''generators'', AtIndex i, InField ''target''] = Some (target, ks) \<and>
            set ks = keys scope \<union> targets_before generators i"
    by (simp add: keys_image)
  have "([InField ''generators'', AtIndex i] @ [InField ''iter''], iter, map fst s1) \<in> set V'"
    by (rule Scoped_single_in [OF V'(1) e]) (simp_all add: sub_ctx_Cons ctx_at_Cons)
  with V'(2) have "([InField ''generators'', AtIndex i, InField ''iter''], iter, map fst s1) \<in> set visits"
    by auto
  from scope_at_member [OF t' this] s1
  have 2: "\<exists>ks. scope_at visits [InField ''generators'', AtIndex i, InField ''iter''] = Some (iter, ks) \<and>
            set ks = keys scope \<union> targets_before generators i"
    by (simp add: keys_image)
  have 3: "\<exists>ks. scope_at visits [InField ''generators'', AtIndex i, InField ''ifs'', AtIndex m] =
            Some (ifs ! m, ks) \<and> set ks = keys scope \<union> targets_before generators (Suc i)"
    if m: "m < length ifs" for m
  proof -
    have "([InField ''generators'', AtIndex i] @ [InField ''ifs'', AtIndex m], ifs ! m, map fst s2) \<in> set V'"
      by (rule Scoped_many_in [OF V'(1) e _ m]) (simp_all add: sub_ctx_Cons ctx_at_Cons)
    with V'(2) have "([InField ''generators'', AtIndex i, InField ''ifs'', AtIndex m], ifs ! m, map fst s2)
        \<in> set visits"
      by auto
    from scope_at_member [OF t' this] s2 show ?thesis by (simp add: keys_image)
  qed
  from c 1 2 3 show ?thesis by blast
qed

lemma comprehension_result_scope:
  assumes t: "collect (Scoped_func observe) scope tree = Inr visits"
    and ext: "extensions scope tree = Inr (rs @ tail)"
    and gl: "generators_loop scope [] 0 generators = Inr (rs, fv)"
    and f: "(name, Single e) \<in> set (iter_fields tree)"
    and name: "name \<noteq> ''generators''"
    and tail: "ctx_at (sub_ctx tail (InField name)) scope = merge_dicts [scope, fv]"
  shows "\<exists>ks. scope_at visits [InField name] = Some (e, ks) \<and>
      set ks = keys scope \<union> targets_before generators (length generators)"
proof -
  from generators_loop_shape [OF gl, of scope] name
  have "sub_ctx rs (InField name) = []" by simp
  with tail have "ctx_at (sub_ctx (rs @ tail) (InField name)) scope = merge_dicts [scope, fv]"
    by (simp add: sub_ctx_append)
  from Scoped_single_scope [OF t ext f this] generators_loop_final [OF gl]
  show ?thesis by (simp add: keys_image keys_merge_dicts) (simp add: keys_def)
qed

lemma extensions_comprehensions:
  "extensions scope (GeneratorExp elt generators) = Inr xs \<longleftrightarrow>
     (\<exists>rs fv. generators_loop scope [] 0 generators = Inr (rs, fv) \<and>
        xs = rs @ [([InField ''elt''], merge_dicts [scope, fv])])"
  "extensions scope (ListComp elt generators) = Inr xs \<longleftrightarrow>
     (\<exists>rs fv. generators_loop scope [] 0 generators = Inr (rs, fv) \<and>
        xs = rs @ [([InField ''elt''], merge_dicts [scope, fv])])"
  "extensions scope (SetComp elt generators) = Inr xs \<longleftrightarrow>
     (\<exists>rs fv. generators_loop scope [] 0 generators = Inr (rs, fv) \<and>
        xs = rs @ [([InField ''elt''], merge_dicts [scope, fv])])"
  "extensions scope (DictComp k v generators) = Inr xs \<longleftrightarrow>
     (\<exists>rs fv. generators_loop scope [] 0 generators = Inr (rs, fv) \<and>
        xs = rs @ [([InField ''key''], merge_dicts [scope, fv]),
                   ([InField ''value''], merge_dicts [scope, fv])])"
  by (auto simp: extend_scope_Inr bind_Inr_iff)

text \<open>
  Claim C6. In a comprehension (generator expression, list, set or dict comprehension)
  the scope at the target and at the iterable of clause \<open>i\<close> is the scope of the
  comprehension with the names of the targets of the clauses before \<open>i\<close>; the scope at
  each of its conditions has the names of its own target as well; the scope at the result
  expression (\<open>elt\<close>, or \<open>key\<close> and \<open>value\<close>) has the names of all targets. So the
  names of a clause's own target are in the scope of its target and iterable only where
  the enclosing scope or an earlier clause binds them already.
\<close>

theorem comprehension_scopes:
  assumes "tree = GeneratorExp elt generators \<or> tree = ListComp elt generators \<or>
           tree = SetComp elt generators \<or> tree = DictComp k v generators"
    and "collect (Scoped_func observe) scope tree = Inr visits"
  shows "(\<forall>i < length generators. \<exists>target iter ifs.
            generators ! i = comprehension target iter ifs \<and>
            (\<exists>ks. scope_at visits [InField ''generators'', AtIndex i, InField ''target''] =
                    Some (target, ks) \<and>
                  set ks = keys scope \<union> targets_before generators i) \<and>
            (\<exists>ks. scope_at visits [InField ''generators'', AtIndex i, InField ''iter''] =
                    Some (iter, ks) \<and>
                  set ks = keys scope \<union> targets_before generators i) \<and>
            (\<forall>m < length ifs. \<exists>ks.
                scope_at visits [InField ''generators'', AtIndex i, InField ''ifs'', AtIndex m] =
                  Some (ifs ! m, ks) \<and>
                set ks = keys scope \<union> targets_before generators (Suc i))) \<and>
         (\<forall>name e. (name, Single e) \<in> set (iter_fields tree) \<longrightarrow>
            (\<exists>ks. scope_at visits [InField name] = Some (e, ks) \<and>
                  set ks = keys scope \<union> targets_before generators (length generators)))"
proof -
  note t = assms(2)
  from t obtain xs where xs: "extensions scope tree = Inr xs"
    by (rule Scoped_collect_extensions)
  from assms(1) xs obtain rs fv tail where
    gl: "generators_loop scope [] 0 generators = Inr (rs, fv)" and x: "xs = rs @ tail"
    and tail: "tail = [([InField ''elt''], merge_dicts [scope, fv])] \<or>
       tail = [([InField ''key''], merge_dicts [scope, fv]), ([InField ''value''], merge_dicts [scope, fv])]"
    and flds: "iter_fields tree = [(''elt'', Single elt), (''generators'', Many generators)] \<and>
         tail = [([InField ''elt''], merge_dicts [scope, fv])] \<or>
       iter_fields tree = [(''key'', Single k), (''value'', Single v), (''generators'', Many generators)] \<and>
         tail = [([InField ''key''], merge_dicts [scope, fv]), ([InField ''value''], merge_dicts [scope, fv])]"
    by (auto simp: extensions_comprehensions simp del: extensions.simps)
  from flds have gf: "(''generators'', Many generators) \<in> set (iter_fields tree)" by auto
  from tail have tg: "sub_ctx tail (InField ''generators'') = []" by (auto simp: sub_ctx_Cons)
  note ext = xs [unfolded x]
  have a: "\<forall>i < length generators. \<exists>target iter ifs.
            generators ! i = comprehension target iter ifs \<and>
            (\<exists>ks. scope_at visits [InField ''generators'', AtIndex i, InField ''target''] =
                    Some (target, ks) \<and>
                  set ks = keys scope \<union> targets_before generators i) \<and>
            (\<exists>ks. scope_at visits [InField ''generators'', AtIndex i, InField ''iter''] =
                    Some (iter, ks) \<and>
                  set ks = keys scope \<union> targets_before generators i) \<and>
            (\<forall>m < length ifs. \<exists>ks.
                scope_at visits [InField ''generators'', AtIndex i, InField ''ifs'', AtIndex m] =
                  Some (ifs ! m, ks) \<and>
                set ks = keys scope \<union> targets_before generators (Suc i))"
    using comprehension_clause_scopes [OF t ext gl gf tg] by blast
  have b: "\<exists>ks. scope_at visits [InField name] = Some (e, ks) \<and>
                  set ks = keys scope \<union> targets_before generators (length generators)"
    if f: "(name, Single e) \<in> set (iter_fields tree)" for name e
  proof (rule comprehension_result_scope [OF t ext gl f])
    from f flds show "name \<noteq> ''generators''" by auto
    from f flds show "ctx_at (sub_ctx tail (InField name)) scope = merge_dicts [scope, fv]"
      by (auto simp: sub_ctx_Cons ctx_at_Cons)
  qed
  from a b show ?thesis by blast
qed

lemma extensions_targets:
  assumes "extensions scope tree = Inr rs" and "name \<notin> set (extended_fields tree)"
  shows "sub_ctx rs (InField name) = []"
proof (cases tree)
  case (GeneratorExp elt generators)
  with assms obtain rs' fv where "generators_loop scope [] 0 generators = Inr (rs', fv)"
    "rs = rs' @ [([InField ''elt''], merge_dicts [scope, fv])]"
    by (auto simp: extensions_comprehensions simp del: extensions.simps)
  with generators_loop_shape [OF this(1), of scope] assms(2) GeneratorExp show ?thesis
    by (auto simp: sub_ctx_append sub_ctx_Cons)
next
  case (ListComp elt generators)
  with assms obtain rs' fv where "generators_loop scope [] 0 generators = Inr (rs', fv)"
    "rs = rs' @ [([InField ''elt''], merge_dicts [scope, fv])]"
    by (auto simp: extensions_comprehensions simp del: extensions.simps)
  with generators_loop_shape [OF this(1), of scope] assms(2) ListComp show ?thesis
    by (auto simp: sub_ctx_append sub_ctx_Cons)
next
  case (SetComp elt generators)
  with assms obtain rs' fv where "generators_loop scope [] 0 generators = Inr (rs', fv)"
    "rs = rs' @ [([InField ''elt''], merge_dicts [scope, fv])]"
    by (auto simp: extensions_comprehensions simp del: extensions.simps)
  with generators_loop_shape [OF this(1), of scope] assms(2) SetComp show ?thesis
    by (auto simp: sub_ctx_append sub_ctx_Cons)
next
  case (DictComp k v generators)
  with assms obtain rs' fv where "generators_loop scope [] 0 generators = Inr (rs', fv)"
    "rs = rs' @ [([InField ''key''], merge_dicts [scope, fv]),
                 ([InField ''value''], merge_dicts [scope, fv])]"
    by (auto simp: extensions_comprehensions simp del: extensions.simps)
  with generators_loop_shape [OF this(1), of scope] assms(2) DictComp show ?thesis
    by (auto simp: sub_ctx_append sub_ctx_Cons)
qed (use assms in \<open>auto simp: extend_scope_Inr bind_Inr_iff sub_ctx_Cons\<close>)

subsection \<open>Extensions build new dictionaries\<close>

lemma del_keys_at_new:
  "del_keys_at (length st) rems (st @ [d]) =
     bind (del_keys d rems) (\<lambda>d'. Inr (st @ [d']))"
  by (induction rems arbitrary: d) simp_all

lemma extend_scope_at_eq:
  "extend_scope_at a target dicts remove st =
     bind (del_keys (merge_dicts (st ! a # dicts)) remove) (\<lambda>d.
       Inr ([(target, length st)], st @ [d]))"
  by (simp add: extend_scope_at_def new_dict_def del_keys_at_new)
     (cases "del_keys (merge_dicts (st ! a # dicts)) remove"; simp)

lemma generators_loop_at_refines:
  assumes "a < length st" "iv < length st" "a \<noteq> iv"
  shows "case generators_loop (st ! a) (st ! iv) i generators of
           Inl e \<Rightarrow> generators_loop_at a iv i generators st = Inl e
         | Inr (rs, fv) \<Rightarrow>
             (\<exists>regs st'. generators_loop_at a iv i generators st = Inr (regs, st') \<and>
                take (length st) st' = st[iv := fv] \<and>
                map (\<lambda>(p, b). (p, st' ! b)) regs = rs \<and>
                (\<forall>(p, b) \<in> set regs. length st \<le> b \<and> b < length st'))"
  using assms
proof (induction generators arbitrary: st i)
  case Nil
  then show ?case by simp
next
  case (Cons gen generators)
  show ?case
  proof (cases gen)
    case (comprehension target iter ifs)
    obtain names where names: "collect find_names () target = Inr names"
      using collect_find_names_total by blast
    let ?scope = "st ! a"
    let ?iv = "st ! iv"
    let ?S1 = "merge_dicts [?scope, ?iv]"
    let ?iv' = "dict_update ?iv (dict names)"
    let ?S2 = "merge_dicts [?scope, ?iv']"
    let ?st3 = "(st @ [?S1, ?S1])[iv := ?iv'] @ [?S2]"
    have l3: "length ?st3 = length st + 3" by simp
    have a3: "a < length ?st3" "iv < length ?st3" using Cons.prems by simp_all
    have r3: "?st3 ! a = ?scope" "?st3 ! iv = ?iv'"
      using Cons.prems by (simp_all add: nth_append nth_list_update)
    have impl: "generators_loop_at a iv i (gen # generators) st =
        bind (generators_loop_at a iv (Suc i) generators ?st3) (\<lambda>(rs, st4).
          Inr ([([InField ''generators'', AtIndex i, InField ''target''], length st),
                ([InField ''generators'', AtIndex i, InField ''iter''], Suc (length st)),
                ([InField ''generators'', AtIndex i, InField ''ifs''], Suc (Suc (length st)))] @ rs,
               st4))"
      using Cons.prems
      by (simp add: comprehension extend_scope_at_eq names nth_append list_update_append
          nth_list_update dict_update_at_def)
    have pure: "generators_loop ?scope ?iv i (gen # generators) =
        bind (generators_loop ?scope ?iv' (Suc i) generators) (\<lambda>(rs, fv).
          Inr ([([InField ''generators'', AtIndex i, InField ''target''], ?S1),
                ([InField ''generators'', AtIndex i, InField ''iter''], ?S1),
                ([InField ''generators'', AtIndex i, InField ''ifs''], ?S2)] @ rs, fv))"
      by (simp add: comprehension extend_scope_def names)
    note IH = Cons.IH [OF a3 Cons.prems(3), of "Suc i", unfolded r3]
    show ?thesis
    proof (cases "generators_loop ?scope ?iv' (Suc i) generators")
      case (Inl e)
      with IH pure impl show ?thesis by simp
    next
      case (Inr res)
      obtain rs fv where res: "res = (rs, fv)" by (cases res)
      from IH Inr res obtain regs st' where
        g: "generators_loop_at a iv (Suc i) generators ?st3 = Inr (regs, st')"
        and t: "take (length ?st3) st' = ?st3[iv := fv]"
        and m: "map (\<lambda>(p, b). (p, st' ! b)) regs = rs"
        and f: "\<forall>(p, b) \<in> set regs. length ?st3 \<le> b \<and> b < length st'"
        by auto
      from arg_cong [OF t, of length] have len: "length ?st3 \<le> length st'"
        by simp
      have nth: "st' ! b = (?st3[iv := fv]) ! b" if "b < length ?st3" for b
        using nth_take [OF that, of st'] by (simp only: t)
      have t0: "take (length st) st' = st[iv := fv]"
      proof -
        have "take (length st) st' = take (length st) (take (length ?st3) st')"
          by (simp add: min_def)
        also have "\<dots> = take (length st) (?st3[iv := fv])" by (simp only: t)
        also have "\<dots> = st[iv := fv]"
          using Cons.prems by (simp add: list_update_append take_update_swap)
        finally show ?thesis .
      qed
      have n1: "st' ! length st = ?S1" "st' ! Suc (length st) = ?S1"
        "st' ! Suc (Suc (length st)) = ?S2"
        using Cons.prems by (simp_all add: nth nth_append nth_list_update list_update_append)
      have f': "\<forall>(p, b) \<in> set regs. length st \<le> b \<and> b < length st'"
        using f by auto
      show ?thesis
        using g t0 m f' n1 len
        by (simp add: pure impl Inr res)
    qed
  qed (simp_all)
qed

lemma simulates_extend_scope:
  assumes "a < length st"
  shows "simulates st (extend_scope (st ! a) target dicts remove)
           (extend_scope_at a target dicts remove st)"
  by (cases "del_keys (merge_dicts (st ! a # dicts)) remove")
     (simp_all add: simulates_def extend_scope_at_eq extend_scope_def)

lemma simulates_comprehension:
  assumes a: "a < length st"
    and pure: "pure = bind (generators_loop (st ! a) [] 0 generators) (\<lambda>(rs, iterator_vars).
       Inr (rs @ map (\<lambda>name. ([InField name], merge_dicts [st ! a, iterator_vars])) names))"
    and impl: "impl = bind (generators_loop_at a (length st) 0 generators (st @ [[]])) cont"
    and cont: "\<And>rs st1. a < length st1 \<Longrightarrow> length st < length st1 \<Longrightarrow> st1 ! a = st ! a \<Longrightarrow>
       cont (rs, st1) =
         Inr (rs @ map (\<lambda>(name, k). ([InField name], length st1 + k)) (zip names [0..<length names]),
              st1 @ replicate (length names) (merge_dicts [st ! a, st1 ! length st]))"
  shows "simulates st pure impl"
proof -
  let ?st0 = "st @ [[]]"
  have p: "a < length ?st0" "length st < length ?st0" "a \<noteq> length st" using a by simp_all
  have r: "?st0 ! a = st ! a" "?st0 ! length st = []" using a by (simp_all add: nth_append)
  note L = generators_loop_at_refines [OF p, of 0 generators, unfolded r]
  show ?thesis
  proof (cases "generators_loop (st ! a) [] 0 generators")
    case (Inl e)
    with L show ?thesis by (simp add: simulates_def pure impl)
  next
    case (Inr res)
    obtain rs fv where res: "res = (rs, fv)" by (cases res)
    from L Inr res obtain regs st1 where
      g: "generators_loop_at a (length st) 0 generators ?st0 = Inr (regs, st1)"
      and t: "take (length ?st0) st1 = ?st0[length st := fv]"
      and m: "map (\<lambda>(p, b). (p, st1 ! b)) regs = rs"
      and f: "\<forall>(p, b) \<in> set regs. length ?st0 \<le> b \<and> b < length st1"
      by auto
    from arg_cong [OF t, of length] have len: "Suc (length st) \<le> length st1" by simp
    have "take (length st) st1 = take (length st) (take (length ?st0) st1)"
      by (simp add: min_def)
    also have "\<dots> = st" by (simp only: t) simp
    finally have t0: "take (length st) st1 = st" .
    have "st1 ! length st = take (length ?st0) st1 ! length st" by simp
    also have "\<dots> = fv" by (simp only: t) simp
    finally have fv: "st1 ! length st = fv" .
    let ?new = "replicate (length names) (merge_dicts [st ! a, fv])"
    have m': "map (\<lambda>(p, b). (p, (st1 @ ?new) ! b)) regs = rs"
    proof -
      have "map (\<lambda>(p, b). (p, (st1 @ ?new) ! b)) regs = map (\<lambda>(p, b). (p, st1 ! b)) regs"
        using f by (auto simp: nth_append)
      with m show ?thesis by simp
    qed
    have n': "map (\<lambda>(p, b). (p, (st1 @ ?new) ! b))
          (map (\<lambda>(name, k). ([InField name], length st1 + k)) (zip names [0..<length names])) =
        map (\<lambda>name. ([InField name], merge_dicts [st ! a, fv])) names"
      by (rule nth_equalityI) (simp_all add: nth_append)
    have f': "\<forall>(p, b) \<in> set (regs @ map (\<lambda>(name, k). ([InField name], length st1 + k))
          (zip names [0..<length names])). length st \<le> b \<and> b < length (st1 @ ?new)"
      using f len by (auto simp: set_zip)
    have "st1 ! a = take (length st) st1 ! a" using a by simp
    then have sa: "st1 ! a = st ! a" by (simp only: t0)
    from a len have "a < length st1" "length st < length st1" by simp_all
    note c = cont [OF this sa, of regs, unfolded fv]
    show ?thesis
      unfolding simulates_def pure impl
      using g t0 m' n' f' len by (simp add: Inr res c)
  qed
qed


lemma comprehension_elt_cont:
  assumes "a < length st1" "length st < length st1" "st1 ! a = st ! a"
  shows "(\<lambda>(rs, st1). bind (extend_scope_at a [InField name] [st1 ! length st] [] st1)
            (\<lambda>(r, st2). Inr (rs @ r, st2))) (rs, st1) =
         Inr (rs @ map (\<lambda>(name, k). ([InField name], length st1 + k)) (zip [name] [0..<length [name]]),
              st1 @ replicate (length [name]) (merge_dicts [st ! a, st1 ! length st]))"
  using assms(3) by (simp add: extend_scope_at_eq)

lemma comprehension_key_value_cont:
  assumes "a < length st1" "length st < length st1" "st1 ! a = st ! a"
  shows "(\<lambda>(rs, st1).
           bind (extend_scope_at a [InField n1] [st1 ! length st] [] st1) (\<lambda>(r1, st2).
           bind (extend_scope_at a [InField n2] [st2 ! length st] [] st2) (\<lambda>(r2, st3).
             Inr (rs @ r1 @ r2, st3)))) (rs, st1) =
         Inr (rs @ map (\<lambda>(name, k). ([InField name], length st1 + k)) (zip [n1, n2] [0..<length [n1, n2]]),
              st1 @ replicate (length [n1, n2]) (merge_dicts [st ! a, st1 ! length st]))"
  using assms by (simp add: extend_scope_at_eq nth_append upt_rec)

lemma comprehension_elt_pure:
  "bind (generators_loop scope [] 0 generators) (\<lambda>(rs, iterator_vars).
     bind (extend_scope scope [InField name] [iterator_vars] []) (\<lambda>r. Inr (rs @ r))) =
   bind (generators_loop scope [] 0 generators) (\<lambda>(rs, iterator_vars).
     Inr (rs @ map (\<lambda>name. ([InField name], merge_dicts [scope, iterator_vars])) [name]))"
  by (simp add: extend_scope_def)

lemma comprehension_key_value_pure:
  "bind (generators_loop scope [] 0 generators) (\<lambda>(rs, iterator_vars).
     bind (extend_scope scope [InField n1] [iterator_vars] []) (\<lambda>r1.
     bind (extend_scope scope [InField n2] [iterator_vars] []) (\<lambda>r2.
       Inr (rs @ r1 @ r2)))) =
   bind (generators_loop scope [] 0 generators) (\<lambda>(rs, iterator_vars).
     Inr (rs @ map (\<lambda>name. ([InField name], merge_dicts [scope, iterator_vars])) [n1, n2]))"
  by (simp add: extend_scope_def)

lemma extensions_at_simulates:
  assumes a: "a < length st"
  shows "simulates st (extensions (st ! a) tree) (extensions_at a tree st)"
proof (cases tree)
  case (Lambda args body)
  then show ?thesis
    using simulates_extend_scope [OF a]
    by (cases "extract_arg_names args") (simp_all add: simulates_def)
next
  case (GeneratorExp elt generators)
  show ?thesis
    unfolding GeneratorExp extensions.simps comprehension_elt_pure
    by (rule simulates_comprehension [OF a refl, where names = "[''elt'']"])
       (simp add: new_dict_def, rule comprehension_elt_cont)
next
  case (ListComp elt generators)
  show ?thesis
    unfolding ListComp extensions.simps comprehension_elt_pure
    by (rule simulates_comprehension [OF a refl, where names = "[''elt'']"])
       (simp add: new_dict_def, rule comprehension_elt_cont)
next
  case (SetComp elt generators)
  show ?thesis
    unfolding SetComp extensions.simps comprehension_elt_pure
    by (rule simulates_comprehension [OF a refl, where names = "[''elt'']"])
       (simp add: new_dict_def, rule comprehension_elt_cont)
next
  case (DictComp k val generators)
  show ?thesis
    unfolding DictComp extensions.simps comprehension_key_value_pure
    by (rule simulates_comprehension [OF a refl, where names = "[''key'', ''value'']"])
       (simp add: new_dict_def, rule comprehension_key_value_cont)
next
  case (ExceptHandler type name body)
  then show ?thesis
    using simulates_extend_scope [OF a] by simp
next
  case (For target iter body orelse)
  then show ?thesis
    using simulates_extend_scope [OF a]
    by (cases "collect find_names () target") (simp_all add: simulates_def)
next
  case (With items body)
  then show ?thesis
    using simulates_extend_scope [OF a]
    by (cases "collect_list find_names () items") (simp_all add: simulates_def)
next
  case (FunctionDef name args body decorator_list returns)
  show ?thesis
  proof (cases "extract_arg_names args")
    case (Inl e)
    then show ?thesis
      by (simp add: FunctionDef simulates_def extend_scope_at_eq extend_scope_def)
  next
    case arg_names: (Inr arg_names)
    show ?thesis
    proof (cases "collect_list find_assignments () body")
      case (Inl e)
      then show ?thesis
        by (simp add: FunctionDef arg_names simulates_def extend_scope_at_eq extend_scope_def)
    next
      case (Inr assignments)
      then show ?thesis
        using a
        by (simp add: FunctionDef arg_names simulates_def extend_scope_at_eq extend_scope_def
            nth_append)
    qed
  qed
next
  case (ClassDef name bases kws body decorator_list)
  show ?thesis
  proof (cases "del_keys (merge_dicts [st ! a]) [Some name]")
    case (Inl e)
    show ?thesis
      by (simp add: ClassDef Inl simulates_def extend_scope_at_eq extend_scope_def
          del: del_keys.simps)
  next
    case d1: (Inr d1)
    show ?thesis
    proof (cases "collect_list find_assignments () body")
      case (Inl e)
      show ?thesis
        by (simp add: ClassDef d1 Inl simulates_def extend_scope_at_eq extend_scope_def
            del: del_keys.simps)
    next
      case assignments: (Inr assignments)
      show ?thesis
      proof (cases "del_keys (merge_dicts [st ! a, dict assignments]) [Some name]")
        case (Inl e)
        show ?thesis
          using a
          by (simp add: ClassDef d1 assignments Inl simulates_def extend_scope_at_eq
              extend_scope_def nth_append del: del_keys.simps)
      next
        case (Inr d2)
        show ?thesis
          using a
          by (simp add: ClassDef d1 assignments Inr simulates_def extend_scope_at_eq
              extend_scope_def nth_append del: del_keys.simps)
      qed
    qed
  qed
qed (simp_all add: simulates_def)

text \<open>
  Claim C3. A node is visited with the scope it was entered with, whatever its visit
  extends: the wrapped walker sees that scope at the node, and every child in a field
  that the visit does not extend is entered with that same scope, its subtree traversed
  exactly as from that scope with nothing pending. The extended scope is a mapping of
  its own, set for the extended child only, so a binding made for one child is not seen
  in a sibling subtree. With the dictionaries as objects in a store, the visit leaves
  every object that was there as it was, the entry scope among them, and each scope it
  sets for a child is an object made during the visit that holds the extended scope.
\<close>

theorem scope_extension_is_local:
  assumes "collect (Scoped_func observe) scope tree = Inr visits"
    and "a < length st" and "st ! a = scope"
  shows "scope_at visits [] = Some (tree, map fst scope) \<and>
         (\<forall>(name, val) \<in> set (iter_fields tree).
            name \<notin> set (extended_fields tree) \<longrightarrow>
            (case val of
               Single child \<Rightarrow>
                 scope_at visits [InField name] = Some (child, map fst scope) \<and>
                 (\<exists>sub_visits.
                    recurse_collect (Scoped_func observe) [] scope [InField name] child =
                      Inr sub_visits \<and>
                    set sub_visits \<subseteq> set visits)
             | Many children \<Rightarrow>
                 \<forall>k < length children.
                   scope_at visits [InField name, AtIndex k] = Some (children ! k, map fst scope) \<and>
                   (\<exists>sub_visits.
                      recurse_collect (Scoped_func observe) [] scope [InField name, AtIndex k]
                        (children ! k) = Inr sub_visits \<and>
                      set sub_visits \<subseteq> set visits)
             | Null \<Rightarrow> True)) \<and>
         (\<exists>regs st'.
            extensions_at a tree st = Inr (regs, st') \<and>
            take (length st) st' = st \<and>
            extensions scope tree = Inr (map (\<lambda>(p, b). (p, st' ! b)) regs) \<and>
            (\<forall>(p, b) \<in> set regs. length st \<le> b \<and> b < length st'))"
proof -
  note t = assms(1) [unfolded collect_def]
  from assms(1) obtain rs where rs: "extensions scope tree = Inr rs"
    by (rule Scoped_collect_extensions)
  have 3: "\<exists>regs st'.
            extensions_at a tree st = Inr (regs, st') \<and>
            take (length st) st' = st \<and>
            extensions scope tree = Inr (map (\<lambda>(p, b). (p, st' ! b)) regs) \<and>
            (\<forall>(p, b) \<in> set regs. length st \<le> b \<and> b < length st')"
    using extensions_at_simulates [OF assms(2), of tree]
    unfolding simulates_def assms(3) rs by auto
  have 1: "scope_at visits [] = Some (tree, map fst scope)"
    by (rule scope_at_member [OF t Scoped_visit_head [OF t]])
  have 2: "(case val of
               Single child \<Rightarrow>
                 scope_at visits [InField name] = Some (child, map fst scope) \<and>
                 (\<exists>sub_visits.
                    recurse_collect (Scoped_func observe) [] scope [InField name] child =
                      Inr sub_visits \<and>
                    set sub_visits \<subseteq> set visits)
             | Many children \<Rightarrow>
                 \<forall>k < length children.
                   scope_at visits [InField name, AtIndex k] = Some (children ! k, map fst scope) \<and>
                   (\<exists>sub_visits.
                      recurse_collect (Scoped_func observe) [] scope [InField name, AtIndex k]
                        (children ! k) = Inr sub_visits \<and>
                      set sub_visits \<subseteq> set visits)
             | Null \<Rightarrow> True)"
    if f: "(name, val) \<in> set (iter_fields tree)" and n: "name \<notin> set (extended_fields tree)"
    for name val
  proof (cases val)
    case (Single child)
    with Scoped_single_scope [OF assms(1) rs, of name child scope] f extensions_targets [OF rs n]
      Scoped_child_single [OF t rs, of name child]
    show ?thesis by simp
  next
    case (Many children)
    with Scoped_many_scope [OF assms(1) rs, of name children _ scope] f extensions_targets [OF rs n]
      Scoped_child_many [OF t rs, of name children]
    show ?thesis by simp
  next
    case Null
    then show ?thesis by simp
  qed
  from 1 2 3 show ?thesis by blast
qed

lemmas eval_defs = Scoped_collect_def collect_def collect_list_def recurse_collect.simps
  find_assignments_def find_names_def Scoped_func_def observe_def extend_scope_def
  merge_dicts_def dict_def dict_update_def keys_def sub_ctx_Cons ctx_at_Cons scope_at_def

theorem scope_extension_is_local_witness:
  "\<exists>visits.
     collect (Scoped_func observe) [(Some ''e'', Tree (Name ''e''))]
       (For (Name ''x'') (Name ''xs'') [Expr (Name ''b'')] [Expr (Name ''e'')]) = Inr visits \<and>
     scope_at visits [] =
       Some (For (Name ''x'') (Name ''xs'') [Expr (Name ''b'')] [Expr (Name ''e'')], [Some ''e'']) \<and>
     scope_at visits [InField ''target''] = Some (Name ''x'', [Some ''e'']) \<and>
     scope_at visits [InField ''iter''] = Some (Name ''xs'', [Some ''e'']) \<and>
     scope_at visits [InField ''orelse'', AtIndex 0] = Some (Expr (Name ''e''), [Some ''e'']) \<and>
     scope_at visits [InField ''body'', AtIndex 0] =
       Some (Expr (Name ''b''), [Some ''e'', Some ''x'']) \<and>
     extensions_at 0 (For (Name ''x'') (Name ''xs'') [Expr (Name ''b'')] [Expr (Name ''e'')])
         [[(Some ''e'', Tree (Name ''e''))]] =
       Inr ([([InField ''body''], 1)],
            [[(Some ''e'', Tree (Name ''e''))],
             [(Some ''e'', Tree (Name ''e'')), (Some ''x'', Tree (Name ''x''))]])"
proof -
  let ?tree = "For (Name ''x'') (Name ''xs'') [Expr (Name ''b'')] [Expr (Name ''e'')]"
  let ?scope = "[(Some ''e'', Tree (Name ''e''))]"
  obtain visits where v: "collect (Scoped_func observe) ?scope ?tree = Inr visits"
    by (simp add: eval_defs)
  have b: "scope_at visits [InField ''body'', AtIndex 0] =
      Some (Expr (Name ''b''), [Some ''e'', Some ''x''])"
    using v by (auto simp: eval_defs)
  have s: "extensions_at 0 ?tree [?scope] =
      Inr ([([InField ''body''], 1)],
           [?scope, [(Some ''e'', Tree (Name ''e'')), (Some ''x'', Tree (Name ''x''))]])"
    by (simp add: eval_defs extend_scope_at_eq)
  have p: "0 < length [?scope]" "[?scope] ! 0 = ?scope"
    by simp_all
  from scope_extension_is_local [OF v p] b v s show ?thesis by simp
qed

text \<open>
  Claim C4. For \<open>def f(x=DEFAULT): y = 1\<close> traversed from the module, the scope at
  \<open>DEFAULT\<close> is \<open>{f}\<close> and the scope at \<open>y = 1\<close> is \<open>{f, x, y}\<close>; for
  \<open>def f(*, k): k\<close> the scope of the body is \<open>{f}\<close>: \<open>extract_arg_names\<close> reads
  \<open>vararg\<close>, \<open>kwarg\<close> and \<open>args\<close> and leaves the keyword-only parameter \<open>k\<close> out.
\<close>

theorem FunctionDef_keyword_only_parameter:
  "(\<exists>visits.
      Scoped_collect observe
        (Module [FunctionDef ''f'' (arguments [] None [arg ''k'' None] [] None [])
                   [Expr (Name ''k'')] [] None]) None = Inr visits \<and>
      scope_at visits [InField ''body'', AtIndex 0, InField ''body'', AtIndex 0] =
        Some (Expr (Name ''k''), [Some ''f''])) \<and>
   (\<exists>visits.
      Scoped_collect observe
        (Module [FunctionDef ''f'' (arguments [arg ''x'' None] None [] [] None [Name ''DEFAULT''])
                   [Assign [Name ''y''] (Other ''Num'' [])] [] None]) None = Inr visits \<and>
      scope_at visits [InField ''body'', AtIndex 0, InField ''args'', InField ''defaults'', AtIndex 0] =
        Some (Name ''DEFAULT'', [Some ''f'']) \<and>
      scope_at visits [InField ''body'', AtIndex 0, InField ''body'', AtIndex 0] =
        Some (Assign [Name ''y''] (Other ''Num'' []), [Some ''f'', Some ''x'', Some ''y'']))"
  by (simp add: eval_defs)

text \<open>
  Claim C5. For \<open>class C(Base): z = 1\<close> traversed from the module, the scope at \<open>Base\<close>
  is empty and the scope at \<open>z = 1\<close> is \<open>{z}\<close>. For a class \<open>C\<close> whose body holds a class
  \<open>C\<close> again, the body of the outer class has a scope without \<open>C\<close>, and at the inner
  definition \<open>del new_scope[rem]\<close> raises \<open>KeyError\<close>: the traversal of the module gives
  no scopes, and no more does the traversal of the outer class from a scope that has \<open>C\<close>.
\<close>

theorem ClassDef_own_name_KeyError:
  "Scoped_collect observe
     (Module [ClassDef ''C'' [] [] [ClassDef ''C'' [] [] [Other ''Pass'' []] []] []]) None =
     Inl (KeyError (Some ''C'')) \<and>
   collect (Scoped_func observe) [(Some ''C'', ParamName None)]
     (ClassDef ''C'' [] [] [ClassDef ''C'' [] [] [Other ''Pass'' []] []] []) =
     Inl (KeyError (Some ''C'')) \<and>
   (\<exists>visits.
      Scoped_collect observe
        (Module [ClassDef ''C'' [Name ''Base''] [] [Assign [Name ''z''] (Other ''Num'' [])] []]) None
        = Inr visits \<and>
      scope_at visits [InField ''body'', AtIndex 0, InField ''bases'', AtIndex 0] =
        Some (Name ''Base'', []) \<and>
      scope_at visits [InField ''body'', AtIndex 0, InField ''body'', AtIndex 0] =
        Some (Assign [Name ''z''] (Other ''Num'' []), [Some ''z'']))"
  by (simp add: eval_defs)

text \<open>
  Claim C8. For \<open>with a as b: c\<close> the scope of the body has \<open>a\<close> as well as \<open>b\<close>:
  \<open>find_names.collect(tree.items)\<close> walks the whole of each item, the context expression
  with the target.
\<close>

theorem With_context_expression_names:
  "\<exists>visits.
     Scoped_collect observe
       (With [withitem (Name ''a'') (Some (Name ''b''))] [Expr (Name ''c'')]) (Some []) = Inr visits \<and>
     scope_at visits [InField ''body'', AtIndex 0] = Some (Expr (Name ''c''), [Some ''a'', Some ''b''])"
  by (simp add: eval_defs)

theorem ClassDef_scopes_witness:
  "Some ''C'' \<in> keys [(Some ''C'', ParamName None)] \<and>
   (\<exists>rs. extensions [(Some ''C'', ParamName None)]
           (ClassDef ''C'' [Name ''Base''] [] [Assign [Name ''z''] (Other ''Num'' [])] []) = Inr rs) \<and>
   (\<exists>visits.
      collect (Scoped_func observe) [(Some ''C'', ParamName None)]
        (ClassDef ''C'' [Name ''Base''] [] [Assign [Name ''z''] (Other ''Num'' [])] []) = Inr visits \<and>
      (\<exists>ks. scope_at visits [InField ''bases'', AtIndex 0] = Some (Name ''Base'', ks) \<and> set ks = {}) \<and>
      (\<exists>ks. scope_at visits [InField ''body'', AtIndex 0] =
              Some (Assign [Name ''z''] (Other ''Num'' []), ks) \<and> set ks = {Some ''z''}))"
proof -
  let ?scope = "[(Some ''C'', ParamName None)]"
  let ?body = "[Assign [Name ''z''] (Other ''Num'' [])]"
  let ?tree = "ClassDef ''C'' [Name ''Base''] [] ?body []"
  have k: "Some ''C'' \<in> keys ?scope" by (simp add: keys_def)
  obtain visits where v: "collect (Scoped_func observe) ?scope ?tree = Inr visits"
    by (simp add: eval_defs)
  have h: "hoisted ?body = {Some ''z''}"
    by (simp add: hoisted_def eval_defs)
  have ks: "keys ?scope = {Some ''C''}" by (simp add: keys_def)
  note inst = ClassDef_scopes [of "''C''" ?scope "[Name ''Base'']" "[]" ?body "[]" visits]
  from inst k have 1: "\<exists>rs. extensions ?scope ?tree = Inr rs" by blast
  from inst v have 2: "\<exists>ks. scope_at visits [InField ''bases'', AtIndex 0] = Some (Name ''Base'', ks) \<and>
      set ks = keys ?scope - {Some ''C''}"
    by force
  from inst v have 3: "\<exists>ks. scope_at visits [InField ''body'', AtIndex 0] =
      Some (Assign [Name ''z''] (Other ''Num'' []), ks) \<and>
      set ks = (keys ?scope \<union> hoisted ?body) - {Some ''C''}"
    by force
  from 2 3 have "(\<exists>ks. scope_at visits [InField ''bases'', AtIndex 0] = Some (Name ''Base'', ks) \<and> set ks = {}) \<and>
      (\<exists>ks. scope_at visits [InField ''body'', AtIndex 0] =
              Some (Assign [Name ''z''] (Other ''Num'' []), ks) \<and> set ks = {Some ''z''})"
    by (auto simp: h ks)
  with k 1 v show ?thesis by blast
qed

theorem comprehension_scopes_witness:
  "\<exists>visits.
     collect (Scoped_func observe) []
       (ListComp (Name ''e'')
          [comprehension (Name ''x'') (Name ''xs'') [Name ''c1''],
           comprehension (Name ''y'') (Name ''x'') [Name ''c2'']]) = Inr visits \<and>
     (\<exists>ks. scope_at visits [InField ''generators'', AtIndex 0, InField ''target''] = Some (Name ''x'', ks) \<and>
           set ks = {}) \<and>
     (\<exists>ks. scope_at visits [InField ''generators'', AtIndex 1, InField ''target''] = Some (Name ''y'', ks) \<and>
           set ks = {Some ''x''}) \<and>
     (\<exists>ks. scope_at visits [InField ''generators'', AtIndex 1, InField ''iter''] = Some (Name ''x'', ks) \<and>
           set ks = {Some ''x''}) \<and>
     (\<exists>ks. scope_at visits [InField ''generators'', AtIndex 1, InField ''ifs'', AtIndex 0] =
             Some (Name ''c2'', ks) \<and> set ks = {Some ''x'', Some ''y''}) \<and>
     (\<exists>ks. scope_at visits [InField ''elt''] = Some (Name ''e'', ks) \<and> set ks = {Some ''x'', Some ''y''})"
proof -
  let ?gens = "[comprehension (Name ''x'') (Name ''xs'') [Name ''c1''],
           comprehension (Name ''y'') (Name ''x'') [Name ''c2'']]"
  let ?tree = "ListComp (Name ''e'') ?gens"
  obtain visits where v: "collect (Scoped_func observe) [] ?tree = Inr visits"
    by (simp add: eval_defs)
  have tree: "?tree = GeneratorExp (Name ''e'') ?gens \<or> ?tree = ListComp (Name ''e'') ?gens \<or>
           ?tree = SetComp (Name ''e'') ?gens \<or> ?tree = DictComp (Name ''e'') (Name ''e'') ?gens"
    by simp
  have bn: "bound_names (Name ''x'') = {Some ''x''}" "bound_names (Name ''y'') = {Some ''y''}"
    by (simp_all add: bound_names_def eval_defs)
  have tb: "targets_before ?gens 0 = {}" "targets_before ?gens (Suc 0) = {Some ''x''}"
    "targets_before ?gens (Suc (Suc 0)) = {Some ''x'', Some ''y''}"
    using bn by (auto simp: targets_before_def)
  have ke: "keys ([] :: scope) = {}" by (simp add: keys_def)
  note inst = comprehension_scopes [OF tree v]
  note clause = inst [THEN conjunct1, rule_format]
  have l0: "0 < length ?gens" and l1: "Suc 0 < length ?gens" by simp_all
  from clause [OF l0] obtain ks0 where
    0: "scope_at visits [InField ''generators'', AtIndex 0, InField ''target''] = Some (Name ''x'', ks0)"
       "set ks0 = {}"
    by (auto simp: bn ke insert_commute)
  from clause [OF l1] obtain ks1 ks2 where
    1: "scope_at visits [InField ''generators'', AtIndex (Suc 0), InField ''target''] = Some (Name ''y'', ks1)"
       "set ks1 = {Some ''x''}"
    and 2: "scope_at visits [InField ''generators'', AtIndex (Suc 0), InField ''iter''] = Some (Name ''x'', ks2)"
       "set ks2 = {Some ''x''}"
    and 3: "\<forall>m < Suc 0. \<exists>ks.
         scope_at visits [InField ''generators'', AtIndex (Suc 0), InField ''ifs'', AtIndex m] =
           Some ([Name ''c2''] ! m, ks) \<and> set ks = {Some ''x'', Some ''y''}"
    by (auto simp: bn ke insert_commute)
  from 3 obtain ks3 where
    3: "scope_at visits [InField ''generators'', AtIndex (Suc 0), InField ''ifs'', AtIndex 0] =
           Some (Name ''c2'', ks3)" "set ks3 = {Some ''x'', Some ''y''}"
    by auto
  from inst [THEN conjunct2, rule_format, of "''elt''" "Name ''e''"] obtain ks4 where
    4: "scope_at visits [InField ''elt''] = Some (Name ''e'', ks4)" "set ks4 = {Some ''x'', Some ''y''}"
    by (auto simp: bn ke insert_commute)
  from v 0 1 2 3 4 show ?thesis by simp
qed

end
